theory Spec2Isabelle
  imports Main "HOL-Library.AList"
begin

section \<open>The abstract connection manager of lib/dialects/abstract/connection-manager.js\<close>

text \<open>
  The manager is a JavaScript class whose methods return promises. The embedding is a
  state machine: the record \<open>manager\<close> holds the fields of the instance together with the
  promise chains that are in flight, an \<open>event\<close> is one turn of the event loop that enters
  the manager's code (a method call, a callback of the pool engine, the settling of a
  promise of a collaborator), and every turn returns the new state and the list of
  \<open>effect\<close>s it had on the collaborators (the dialect's connect and disconnect, the pool
  engine generic-pool, the query layer, the promises handed to callers). JavaScript runs
  each turn to completion, so a turn is one function application.
\<close>

subsection \<open>JavaScript values\<close>

datatype jsval =
    JUndefined
  | JNull
  | JBool bool
  | JNum int
  | JStr string
  | JFun string
  | JObj "(string \<times> jsval) list"
  | JArr "jsval list"

text \<open>Truthiness, as \<open>!x\<close>, \<open>x || y\<close> and \<open>if (x)\<close> read it.\<close>

fun js_truthy :: "jsval \<Rightarrow> bool" where
  "js_truthy JUndefined = False"
| "js_truthy JNull = False"
| "js_truthy (JBool b) = b"
| "js_truthy (JNum n) = (n \<noteq> 0)"
| "js_truthy (JStr s) = (s \<noteq> [])"
| "js_truthy (JFun f) = True"
| "js_truthy (JObj ps) = True"
| "js_truthy (JArr xs) = True"

text \<open>Reading a property of an object: an absent property reads as \<open>undefined\<close>.\<close>

definition get :: "(string \<times> jsval) list \<Rightarrow> string \<Rightarrow> jsval" where
  "get ps k = (case map_of ps k of None \<Rightarrow> JUndefined | Some v \<Rightarrow> v)"

text \<open>
  lodash's \<open>_.defaults(object, source)\<close>: every property of the source whose value in the
  object is \<open>undefined\<close> is assigned to the object; \<open>Object(object)\<close> turns a value that is
  no object into a fresh empty object first (a target configuration is an object or
  \<open>undefined\<close>).
\<close>

fun assign_default :: "(string \<times> jsval) list \<Rightarrow> string \<times> jsval \<Rightarrow> (string \<times> jsval) list" where
  "assign_default ps (k, v) = (if get ps k = JUndefined then AList.update k v ps else ps)"

definition defaults :: "(string \<times> jsval) list \<Rightarrow> (string \<times> jsval) list \<Rightarrow> (string \<times> jsval) list" where
  "defaults ps src = foldl assign_default ps src"

fun as_object :: "jsval \<Rightarrow> (string \<times> jsval) list" where
  "as_object (JObj ps) = ps"
| "as_object v = []"

subsection \<open>Configuration, options, handles\<close>

text \<open>
  \<open>sequelize.config\<close>: \<open>props\<close> holds every own property but \<open>replication\<close> (so
  \<open>_.omit(config, 'replication')\<close> is \<open>props\<close>); \<open>replication\<close> is \<open>None\<close> for the value
  \<open>false\<close> that Sequelize stores when no replication is configured.
\<close>

record repl =
  write_cfg :: jsval
  read_cfg :: jsval

record configuration =
  props :: "(string \<times> jsval) list"
  replication :: "repl option"

record options =
  priority :: jsval
  type :: jsval
  useMaster :: jsval

definition empty_options :: options where
  "empty_options = \<lparr>priority = JUndefined, type = JUndefined, useMaster = JUndefined\<rparr>"

record connection =
  cid :: nat
  queryType :: jsval

datatype error = TypeError | Error string

definition closed_error :: error where
  "closed_error =
     Error ''ConnectionManager.getConnection was called after the connection manager was closed!''"

definition defaultPoolingConfig :: "(string \<times> jsval) list" where
  "defaultPoolingConfig =
     [(''max'', JNum 5), (''min'', JNum 0), (''idle'', JNum 10000),
      (''handleDisconnects'', JBool True)]"

subsection \<open>Effects on the collaborators and events entering the manager\<close>

text \<open>
  Effects: \<open>CreatePool\<close> is \<open>Pooling.createPool\<close> with the settings read from
  \<open>config.pool\<close>; \<open>Connect\<close> is \<open>this._connect(cfg)\<close> (the \<open>beforeConnect\<close> hooks, then
  the dialect's \<open>connect\<close>), issued for a version detection or by the factory of a pool;
  \<open>VersionQuery\<close> is \<open>sequelize.databaseVersion(_options)\<close>; \<open>Disconnect\<close> is
  \<open>this._disconnect(connection)\<close>; \<open>Created\<close> and \<open>CreateFailed\<close> settle the promise
  a factory's \<open>create\<close> returned to its pool; \<open>Acquire\<close>, \<open>Release\<close>, \<open>Drain\<close> and
  \<open>DestroyAllNow\<close> are calls of these methods of a generic-pool; \<open>Reject\<close> rejects the
  promise that \<open>getConnection\<close> returned to a caller; \<open>Throw\<close> is an exception thrown
  out of the current turn.

  Events: the four public methods and the process's \<open>exit\<close> event; the settling of the
  promises of \<open>_connect\<close>, of the version query and of \<open>_disconnect\<close> in a detection
  (\<open>ConnectDone\<close>, \<open>QueryDone\<close>, \<open>DisconnectDone\<close>, by promise number); the pool engine
  calling a factory's \<open>create\<close> or \<open>destroy\<close> and the settling of a \<open>create\<close>'s
  \<open>_connect\<close> (\<open>CreateDone\<close>); the pool engine calling the callback given to \<open>drain\<close>
  (\<open>Drained\<close>); \<open>RunCallbacks\<close>, the end of the synchronous code, when callbacks
  on fulfilled promises run; and \<open>Lend\<close>, a pool fulfilling an \<open>acquire\<close> with a handle
  (the promise goes to the caller; no code of the manager runs). \<open>refreshTypeParser\<close>, \<open>_validate\<close> and the router's
  \<open>destroy\<close> take no part in what follows and are left out.
\<close>

datatype pool_id = PlainPool | ReadPool | WritePool

datatype origin = Detection nat | Factory pool_id nat

datatype target = WholeConfig configuration | Target jsval

datatype logger = ConsoleLogger | NoOpLogger

record query_options =
  transaction_connection :: connection
  logging :: logger
  testLoggingFn :: bool

record pool_settings =
  validate :: jsval
  pmax :: jsval
  pmin :: jsval
  idleTimeoutMillis :: jsval

datatype effect =
    CreatePool pool_id pool_settings
  | Connect origin target
  | VersionQuery nat query_options
  | Disconnect connection
  | Created pool_id nat connection
  | CreateFailed pool_id nat error
  | Acquire pool_id nat jsval
  | Release pool_id connection
  | Drain pool_id
  | DestroyAllNow pool_id
  | Reject nat error
  | Throw error

datatype event =
    InitPools
  | GetConnection "options option"
  | ReleaseConnection connection
  | Close
  | ProcessExit
  | ConnectDone nat "error + connection"
  | QueryDone nat "error + jsval"
  | DisconnectDone nat "error option"
  | PoolCreate pool_id
  | CreateDone nat "error + connection"
  | PoolDestroy pool_id connection
  | Drained pool_id
  | RunCallbacks
  | Lend pool_id connection

subsection \<open>The state of a manager\<close>

text \<open>
  \<open>pool\<close> is \<open>this.pool\<close>: \<open>None\<close> before \<open>initPools\<close>, a plain generic-pool, or the
  hand-written router over a read and a write pool. \<open>getConnection_slot\<close> says which
  function the instance's \<open>getConnection\<close> resolves to: the prototype's method, or the
  rejecting function that \<open>close\<close> stores on the instance. \<open>versionPromise\<close> holds the
  number of the promise it refers to; \<open>detections\<close> gives, for each such promise still
  pending, how far its chain \<open>_connect(..).then(..).catch(..)\<close> has come; \<open>waiters\<close> are
  the \<open>promise.then\<close> callbacks of \<open>getConnection\<close> calls (promise, caller, options), in
  the order they were attached; \<open>deferred\<close> are the callbacks attached to the already
  fulfilled \<open>Promise.resolve()\<close>, which run when the synchronous code that called
  \<open>getConnection\<close> has finished (the event \<open>RunCallbacks\<close>); \<open>creating\<close> are the
  pending \<open>create\<close> calls of the pool factories. \<open>reads\<close> is the round-robin counter of \<open>initPools\<close>, a JavaScript number
  that counts up from 0 by one (exact for every count below \<open>2^53\<close>).
  \<open>semver_valid\<close> is the semver library's \<open>valid\<close> on strings; \<open>defaultVersion\<close> is the
  dialect's default version string, \<open>None\<close> when the dialect sets none.
\<close>

datatype pool_kind = Plain | Replicated

datatype getConnection_impl = PrototypeMethod | RejectAfterClose

datatype phase = Connecting | Querying connection | Disconnecting connection

record manager =
  sequelize_config :: configuration
  databaseVersion :: jsval
  semver_valid :: "string \<Rightarrow> bool"
  defaultVersion :: "string option"
  config :: configuration
  versionPromise :: "nat option"
  pool :: "pool_kind option"
  reads :: nat
  getConnection_slot :: getConnection_impl
  exit_listener :: bool
  detections :: "nat \<rightharpoonup> phase"
  waiters :: "(nat \<times> nat \<times> options) list"
  deferred :: "(nat \<times> options) list"
  creating :: "nat \<rightharpoonup> pool_id"
  next_promise :: nat
  next_caller :: nat
  next_create :: nat

subsection \<open>constructor\<close>

text \<open>
  Objects are values here, and a field of the state is one object: \<open>sequelize_config\<close> is
  the caller's \<open>sequelize.config\<close>, \<open>config\<close> is \<open>this.config\<close>. \<open>_.cloneDeep\<close> returns
  a structurally equal object that shares nothing with its argument, so the copy is the
  same value held in a field of its own, and an assignment to a property of
  \<open>this.config\<close> updates the field \<open>config\<close> only; which objects the two
  configurations share is settled on the store at the end of the definitions.
  \<open>config.pool || {}\<close> is an object or, for a falsy value, the empty object.
\<close>

definition cloneDeep :: "configuration \<Rightarrow> configuration" where
  "cloneDeep c = c"

definition constructor ::
  "string option \<Rightarrow> (string \<Rightarrow> bool) \<Rightarrow> configuration \<Rightarrow> jsval \<Rightarrow> error + manager" where
  "constructor dv valid seq_config version =
     (let cfg = cloneDeep seq_config;
          poolv = get (props cfg) ''pool''
      in if poolv \<noteq> JBool False then
           Inr \<lparr>sequelize_config = seq_config,
                databaseVersion = version,
                semver_valid = valid,
                defaultVersion = dv,
                config = cfg\<lparr>props := AList.update ''pool''
                  (JObj (defaults
                     (defaults (as_object (if js_truthy poolv then poolv else JObj []))
                        defaultPoolingConfig)
                     [(''validate'', JFun ''_validate'')]))
                  (props cfg)\<rparr>,
                versionPromise = None,
                pool = None,
                reads = 0,
                getConnection_slot = PrototypeMethod,
                exit_listener = True,
                detections = Map.empty,
                waiters = [],
                deferred = [],
                creating = Map.empty,
                next_promise = 0,
                next_caller = 0,
                next_create = 0\<rparr>
         else Inl (Error ''Support for pool:false was removed in v4.0''))"

subsection \<open>The replication router\<close>

text \<open>\<open>pool.acquire(priority, queryType, useMaster)\<close>: the sub-pool and the priority passed on.\<close>

definition router_acquire :: "jsval \<Rightarrow> jsval \<Rightarrow> jsval \<Rightarrow> pool_id \<times> jsval" where
  "router_acquire prio qt um =
     (let um' = (if um = JUndefined then JBool False else um)
      in if qt = JStr ''SELECT'' \<and> \<not> js_truthy um' then (ReadPool, prio) else (WritePool, prio))"

text \<open>\<open>pool.release(client)\<close>: the sub-pool whose \<open>release\<close> is called with the client.\<close>

definition router_release :: "connection \<Rightarrow> pool_id" where
  "router_release client = (if queryType client = JStr ''read'' then ReadPool else WritePool)"

definition router_destroyAllNow :: "effect list" where
  "router_destroyAllNow = [DestroyAllNow ReadPool, DestroyAllNow WritePool]"

text \<open>\<open>pool.drain\<close> takes no argument: a callback passed to it is dropped.\<close>

definition router_drain :: "effect list" where
  "router_drain = [Drain WritePool]"

subsection \<open>initPools\<close>

text \<open>Reading \<open>config.pool.validate\<close>, \<open>.max\<close>, \<open>.min\<close>, \<open>.idle\<close> for \<open>createPool\<close>.\<close>

fun pool_settings_of :: "jsval \<Rightarrow> error + pool_settings" where
  "pool_settings_of JUndefined = Inl TypeError"
| "pool_settings_of JNull = Inl TypeError"
| "pool_settings_of v =
     Inr \<lparr>validate = get (as_object v) ''validate'', pmax = get (as_object v) ''max'',
          pmin = get (as_object v) ''min'', idleTimeoutMillis = get (as_object v) ''idle''\<rparr>"

definition normalize_read :: "jsval \<Rightarrow> jsval list" where
  "normalize_read r = (case r of JArr xs \<Rightarrow> xs | _ \<Rightarrow> [r])"

definition init_pools :: "manager \<Rightarrow> manager \<times> effect list" where
  "init_pools m =
     (let cfg = config m in
      case replication cfg of
        None \<Rightarrow>
          (case pool_settings_of (get (props cfg) ''pool'') of
             Inl e \<Rightarrow> (m, [Throw e])
           | Inr ps \<Rightarrow> (m\<lparr>pool := Some Plain\<rparr>, [CreatePool PlainPool ps]))
      | Some r \<Rightarrow>
          (let read1 = normalize_read (read_cfg r);
               write' = JObj (defaults (as_object (write_cfg r)) (props cfg));
               read' = map (\<lambda>readConfig. JObj (defaults (as_object readConfig) (props cfg))) read1;
               m' = m\<lparr>config := cfg\<lparr>replication :=
                        Some \<lparr>write_cfg = write', read_cfg = JArr read'\<rparr>\<rparr>,
                      reads := 0\<rparr>
           in case pool_settings_of (get (props cfg) ''pool'') of
                Inl e \<Rightarrow> (m', [Throw e])
              | Inr ps \<Rightarrow>
                  (m'\<lparr>pool := Some Replicated\<rparr>, [CreatePool ReadPool ps, CreatePool WritePool ps])))"

subsection \<open>The pool factories: create and destroy, called by the pool engine\<close>

text \<open>
  \<open>config.replication.read.length\<close>: \<open>undefined\<close> and \<open>null\<close> have no properties; a value
  that is neither an array nor a string is taken to have no \<open>length\<close>. After \<open>initPools\<close>
  the value is an array.
\<close>

fun js_length :: "jsval \<Rightarrow> error + nat option" where
  "js_length JUndefined = Inl TypeError"
| "js_length JNull = Inl TypeError"
| "js_length (JArr xs) = Inr (Some (length xs))"
| "js_length (JStr s) = Inr (Some (length s))"
| "js_length v = Inr None"

fun js_index :: "jsval \<Rightarrow> nat \<Rightarrow> jsval" where
  "js_index (JArr xs) i = (if i < length xs then xs ! i else JUndefined)"
| "js_index (JStr s) i = (if i < length s then JStr [s ! i] else JUndefined)"
| "js_index v i = JUndefined"

text \<open>
  The read factory: \<open>reads++ % length\<close> is \<open>NaN\<close> when the length is 0 or \<open>undefined\<close>, and
  indexing with \<open>NaN\<close> gives \<open>undefined\<close>. The counter is incremented before the length is
  read.
\<close>

definition read_create :: "manager \<Rightarrow> manager \<times> effect list" where
  "read_create m =
     (let k = next_create m;
          m1 = m\<lparr>reads := reads m + 1\<rparr>;
          readv = (case replication (config m) of None \<Rightarrow> JUndefined | Some r \<Rightarrow> read_cfg r)
      in case js_length readv of
           Inl e \<Rightarrow> (m1, [Throw e])
         | Inr len \<Rightarrow>
             (let nextRead = (case len of None \<Rightarrow> None
                              | Some n \<Rightarrow> if n = 0 then None else Some (reads m mod n));
                  cfg = (case nextRead of None \<Rightarrow> JUndefined | Some i \<Rightarrow> js_index readv i)
              in (m1\<lparr>creating := (creating m)(k \<mapsto> ReadPool), next_create := k + 1\<rparr>,
                  [Connect (Factory ReadPool k) (Target cfg)])))"

definition write_create :: "manager \<Rightarrow> manager \<times> effect list" where
  "write_create m =
     (let k = next_create m;
          cfg = (case replication (config m) of None \<Rightarrow> JUndefined | Some r \<Rightarrow> write_cfg r)
      in (m\<lparr>creating := (creating m)(k \<mapsto> WritePool), next_create := k + 1\<rparr>,
          [Connect (Factory WritePool k) (Target cfg)]))"

definition plain_create :: "manager \<Rightarrow> manager \<times> effect list" where
  "plain_create m =
     (let k = next_create m
      in (m\<lparr>creating := (creating m)(k \<mapsto> PlainPool), next_create := k + 1\<rparr>,
          [Connect (Factory PlainPool k) (WholeConfig (config m))]))"

text \<open>The pool engine calls the factory of a pool that \<open>initPools\<close> has built.\<close>

fun pool_exists :: "pool_kind option \<Rightarrow> pool_id \<Rightarrow> bool" where
  "pool_exists (Some Plain) PlainPool = True"
| "pool_exists (Some Replicated) ReadPool = True"
| "pool_exists (Some Replicated) WritePool = True"
| "pool_exists k p = False"

definition pool_create :: "manager \<Rightarrow> pool_id \<Rightarrow> manager \<times> effect list" where
  "pool_create m p =
     (if pool_exists (pool m) p then
        (case p of PlainPool \<Rightarrow> plain_create m | ReadPool \<Rightarrow> read_create m
         | WritePool \<Rightarrow> write_create m)
      else (m, []))"

text \<open>The \<open>then\<close> and \<open>tap\<close> callbacks of the factories tag the new connection.\<close>

fun tag :: "pool_id \<Rightarrow> connection \<Rightarrow> connection" where
  "tag ReadPool c = c\<lparr>queryType := JStr ''read''\<rparr>"
| "tag WritePool c = c\<lparr>queryType := JStr ''write''\<rparr>"
| "tag PlainPool c = c"

definition create_done :: "manager \<Rightarrow> nat \<Rightarrow> error + connection \<Rightarrow> manager \<times> effect list" where
  "create_done m k r =
     (case creating m k of
        None \<Rightarrow> (m, [])
      | Some p \<Rightarrow>
          (m\<lparr>creating := (creating m)(k := None)\<rparr>,
           [case r of Inl e \<Rightarrow> CreateFailed p k e | Inr c \<Rightarrow> Created p k (tag p c)]))"

definition pool_destroy :: "manager \<Rightarrow> pool_id \<Rightarrow> connection \<Rightarrow> manager \<times> effect list" where
  "pool_destroy m p c = (if pool_exists (pool m) p then (m, [Disconnect c]) else (m, []))"

subsection \<open>getConnection and the version detection\<close>

text \<open>\<open>this.pool.acquire(options.priority, options.type, options.useMaster)\<close> for a caller.\<close>

definition pool_acquire :: "manager \<Rightarrow> nat \<Rightarrow> options \<Rightarrow> effect list" where
  "pool_acquire m c opts =
     (case pool m of
        None \<Rightarrow> [Reject c TypeError]
      | Some Plain \<Rightarrow> [Acquire PlainPool c (priority opts)]
      | Some Replicated \<Rightarrow>
          (case router_acquire (priority opts) (type opts) (useMaster opts) of
             (p, prio) \<Rightarrow> [Acquire p c prio]))"

text \<open>\<open>this.config.replication.write || this.config\<close>\<close>

definition detection_target :: "configuration \<Rightarrow> target" where
  "detection_target cfg =
     (case replication cfg of
        None \<Rightarrow> WholeConfig cfg
      | Some r \<Rightarrow> if js_truthy (write_cfg r) then Target (write_cfg r) else WholeConfig cfg)"

definition get_connection :: "manager \<Rightarrow> options option \<Rightarrow> manager \<times> effect list" where
  "get_connection m0 opts =
     (let c = next_caller m0;
          m = m0\<lparr>next_caller := c + 1\<rparr>
      in case getConnection_slot m of
           RejectAfterClose \<Rightarrow> (m, [Reject c closed_error])
         | PrototypeMethod \<Rightarrow>
             (let options = (case opts of None \<Rightarrow> empty_options | Some v \<Rightarrow> v)
              in if databaseVersion m = JNum 0 then
                   (case versionPromise m of
                      Some p \<Rightarrow> (m\<lparr>waiters := waiters m @ [(p, c, options)]\<rparr>, [])
                    | None \<Rightarrow>
                        (let p = next_promise m
                         in (m\<lparr>next_promise := p + 1,
                               versionPromise := Some p,
                               detections := (detections m)(p \<mapsto> Connecting),
                               waiters := waiters m @ [(p, c, options)]\<rparr>,
                             [Connect (Detection p) (detection_target (config m))])))
                 else (m\<lparr>deferred := deferred m @ [(c, options)]\<rparr>, [])))"

text \<open>The callbacks on \<open>Promise.resolve()\<close> run, in the order of the calls.\<close>

fun run_deferred :: "manager \<Rightarrow> nat \<times> options \<Rightarrow> effect list" where
  "run_deferred m (c, opts) = pool_acquire m c opts"

definition run_callbacks :: "manager \<Rightarrow> manager \<times> effect list" where
  "run_callbacks m = (m\<lparr>deferred := []\<rparr>, concat (map (run_deferred m) (deferred m)))"

text \<open>
  The promise \<open>p\<close> settles: the callbacks attached to it run in the order they were
  attached. On fulfilment each caller's callback asks the pool for a connection; on
  rejection each caller's promise is rejected with the same error.
\<close>

fun resume :: "manager \<Rightarrow> nat \<Rightarrow> nat \<times> nat \<times> options \<Rightarrow> effect list" where
  "resume m p (q, c, opts) = (if q = p then pool_acquire m c opts else [])"

fun refuse :: "error \<Rightarrow> nat \<Rightarrow> nat \<times> nat \<times> options \<Rightarrow> effect list" where
  "refuse err p (q, c, opts) = (if q = p then [Reject c err] else [])"

definition others :: "nat \<Rightarrow> (nat \<times> nat \<times> options) list \<Rightarrow> (nat \<times> nat \<times> options) list" where
  "others p ws = filter (\<lambda>w. fst w \<noteq> p) ws"

definition fulfil :: "manager \<Rightarrow> nat \<Rightarrow> manager \<times> effect list" where
  "fulfil m p =
     (m\<lparr>detections := (detections m)(p := None), waiters := others p (waiters m)\<rparr>,
      concat (map (resume m p) (waiters m)))"

text \<open>The \<open>catch\<close> handler of the chain: \<open>this.versionPromise = null; throw err\<close>.\<close>

definition fail :: "manager \<Rightarrow> nat \<Rightarrow> error \<Rightarrow> manager \<times> effect list" where
  "fail m p err =
     (m\<lparr>versionPromise := None, detections := (detections m)(p := None),
        waiters := others p (waiters m)\<rparr>,
      concat (map (refuse err p) (waiters m)))"

definition valid_version :: "manager \<Rightarrow> jsval \<Rightarrow> bool" where
  "valid_version m v = (case v of JStr s \<Rightarrow> semver_valid m s | _ \<Rightarrow> False)"

definition default_version :: "manager \<Rightarrow> jsval" where
  "default_version m = (case defaultVersion m of None \<Rightarrow> JUndefined | Some s \<Rightarrow> JStr s)"

definition connect_done :: "manager \<Rightarrow> nat \<Rightarrow> error + connection \<Rightarrow> manager \<times> effect list" where
  "connect_done m p r =
     (case detections m p of
        Some Connecting \<Rightarrow>
          (case r of
             Inl err \<Rightarrow> fail m p err
           | Inr c \<Rightarrow>
               (m\<lparr>detections := (detections m)(p \<mapsto> Querying c)\<rparr>,
                [VersionQuery p \<lparr>transaction_connection = c, logging = NoOpLogger,
                                 testLoggingFn = True\<rparr>]))
      | _ \<Rightarrow> (m, []))"

definition query_done :: "manager \<Rightarrow> nat \<Rightarrow> error + jsval \<Rightarrow> manager \<times> effect list" where
  "query_done m p r =
     (case detections m p of
        Some (Querying c) \<Rightarrow>
          (case r of
             Inl err \<Rightarrow> fail m p err
           | Inr version \<Rightarrow>
               (m\<lparr>databaseVersion :=
                     (if valid_version m version then version else default_version m),
                   versionPromise := None,
                   detections := (detections m)(p \<mapsto> Disconnecting c)\<rparr>,
                [Disconnect c]))
      | _ \<Rightarrow> (m, []))"

definition disconnect_done :: "manager \<Rightarrow> nat \<Rightarrow> error option \<Rightarrow> manager \<times> effect list" where
  "disconnect_done m p r =
     (case detections m p of
        Some (Disconnecting c) \<Rightarrow>
          (case r of Some err \<Rightarrow> fail m p err | None \<Rightarrow> fulfil m p)
      | _ \<Rightarrow> (m, []))"

subsection \<open>releaseConnection, onProcessExit, close\<close>

definition release_connection :: "manager \<Rightarrow> connection \<Rightarrow> manager \<times> effect list" where
  "release_connection m c =
     (case pool m of
        None \<Rightarrow> (m, [Throw TypeError])
      | Some Plain \<Rightarrow> (m, [Release PlainPool c])
      | Some Replicated \<Rightarrow> (m, [Release (router_release c) c]))"

definition onProcessExit :: "manager \<Rightarrow> manager \<times> effect list" where
  "onProcessExit m =
     (case pool m of
        None \<Rightarrow> (m, [])
      | Some Plain \<Rightarrow> (m, [Drain PlainPool])
      | Some Replicated \<Rightarrow> (m, router_drain))"

definition close :: "manager \<Rightarrow> manager \<times> effect list" where
  "close m =
     (case onProcessExit m of
        (m', effs) \<Rightarrow> (m'\<lparr>exit_listener := False, getConnection_slot := RejectAfterClose\<rparr>, effs))"

text \<open>
  The callbacks passed to \<open>drain\<close>: the one of \<open>onProcessExit\<close> (plain pool) calls
  \<open>this.pool.destroyAllNow()\<close>; the one the router passes to the write pool drains the
  read pool; the read pool gets none.
\<close>

definition drained :: "manager \<Rightarrow> pool_id \<Rightarrow> manager \<times> effect list" where
  "drained m p =
     (case p of
        PlainPool \<Rightarrow>
          (case pool m of
             None \<Rightarrow> (m, [Throw TypeError])
           | Some Plain \<Rightarrow> (m, [DestroyAllNow PlainPool])
           | Some Replicated \<Rightarrow> (m, router_destroyAllNow))
      | WritePool \<Rightarrow>
          (case pool m of
             Some Replicated \<Rightarrow> (m, [Drain ReadPool])
           | _ \<Rightarrow> (m, [Throw TypeError]))
      | ReadPool \<Rightarrow> (m, []))"

subsection \<open>Turns of the event loop\<close>

fun step :: "manager \<Rightarrow> event \<Rightarrow> manager \<times> effect list" where
  "step m InitPools = init_pools m"
| "step m (GetConnection opts) = get_connection m opts"
| "step m (ReleaseConnection c) = release_connection m c"
| "step m Close = close m"
| "step m ProcessExit = (if exit_listener m then onProcessExit m else (m, []))"
| "step m (ConnectDone p r) = connect_done m p r"
| "step m (QueryDone p r) = query_done m p r"
| "step m (DisconnectDone p r) = disconnect_done m p r"
| "step m (PoolCreate p) = pool_create m p"
| "step m (CreateDone k r) = create_done m k r"
| "step m (PoolDestroy p c) = pool_destroy m p c"
| "step m (Drained p) = drained m p"
| "step m RunCallbacks = run_callbacks m"
| "step m (Lend p c) = (m, [])"

fun run :: "manager \<Rightarrow> event list \<Rightarrow> manager \<times> effect list" where
  "run m [] = (m, [])"
| "run m (e # es) =
     (case step m e of (m', out) \<Rightarrow> (case run m' es of (m'', out') \<Rightarrow> (m'', out @ out')))"

subsection \<open>Concrete managers used at the end of the development\<close>

definition ex_valid :: "string \<Rightarrow> bool" where
  "ex_valid s = (s = ''5.7.20'')"

definition ex_config :: configuration where
  "ex_config =
     \<lparr>props = [(''database'', JStr ''db''), (''host'', JStr ''localhost'')],
      replication = None\<rparr>"

definition ex_pool :: jsval where
  "ex_pool =
     JObj [(''max'', JNum 5), (''min'', JNum 0), (''idle'', JNum 10000),
           (''handleDisconnects'', JBool True), (''validate'', JFun ''_validate'')]"

definition ex_repl_config :: configuration where
  "ex_repl_config =
     \<lparr>props = [(''database'', JStr ''db''), (''host'', JStr ''main'')],
      replication = Some
        \<lparr>write_cfg = JObj [(''host'', JStr ''master'')],
         read_cfg = JArr [JObj [(''host'', JStr ''replica1'')],
                          JObj [(''host'', JStr ''replica2'')]]\<rparr>\<rparr>"

definition new_manager :: "configuration \<Rightarrow> configuration \<Rightarrow> manager" where
  "new_manager seq_config cfg =
     \<lparr>sequelize_config = seq_config, databaseVersion = JNum 0, semver_valid = ex_valid,
      defaultVersion = Some ''5.6.0'', config = cfg, versionPromise = None, pool = None,
      reads = 0, getConnection_slot = PrototypeMethod, exit_listener = True,
      detections = Map.empty, waiters = [], deferred = [], creating = Map.empty,
      next_promise = 0, next_caller = 0, next_create = 0\<rparr>"

definition ex_manager :: manager where
  "ex_manager =
     new_manager ex_config
       \<lparr>props = [(''database'', JStr ''db''), (''host'', JStr ''localhost''),
                 (''pool'', ex_pool)],
        replication = None\<rparr>"

definition ex_repl_manager :: manager where
  "ex_repl_manager =
     new_manager ex_repl_config
       \<lparr>props = [(''database'', JStr ''db''), (''host'', JStr ''main''), (''pool'', ex_pool)],
        replication = replication ex_repl_config\<rparr>"

definition ex_router :: manager where
  "ex_router = fst (init_pools ex_repl_manager)"

definition ex_conn :: "nat \<Rightarrow> connection" where
  "ex_conn n = \<lparr>cid = n, queryType = JUndefined\<rparr>"

definition ex_single_read_config :: configuration where
  "ex_single_read_config =
     \<lparr>props = [(''database'', JStr ''db''), (''host'', JStr ''main'')],
      replication = Some \<lparr>write_cfg = JUndefined, read_cfg = JObj [(''host'', JStr ''replica'')]\<rparr>\<rparr>"

definition ex_single_read_manager :: manager where
  "ex_single_read_manager =
     new_manager ex_single_read_config
       \<lparr>props = [(''database'', JStr ''db''), (''host'', JStr ''main''), (''pool'', ex_pool)],
        replication = replication ex_single_read_config\<rparr>"

definition ex_create_events :: "event list" where
  "ex_create_events = [PoolCreate ReadPool, GetConnection None, PoolCreate ReadPool,
     ReleaseConnection (ex_conn 3), RunCallbacks, PoolCreate ReadPool]"

definition ex_retry_events :: "event list" where
  "ex_retry_events =
     [GetConnection None, ConnectDone 0 (Inr (ex_conn 1)), QueryDone 0 (Inl (Error ''query failed'')),
      GetConnection None, ConnectDone 1 (Inr (ex_conn 2))]"

definition ex_detect_events :: "event list" where
  "ex_detect_events =
     [InitPools, GetConnection None, GetConnection None, ConnectDone 0 (Inr (ex_conn 1)),
      GetConnection None, QueryDone 0 (Inr (JStr ''5.7.20''))]"

definition ex_waiting :: manager where
  "ex_waiting = fst (run ex_manager [GetConnection None, GetConnection None])"

subsection \<open>Observations on runs\<close>

text \<open>The configurations the read factory connected to, in the order of its calls.\<close>

fun read_connects :: "effect list \<Rightarrow> target list" where
  "read_connects [] = []"
| "read_connects (Connect (Factory ReadPool k) t # effs) = t # read_connects effs"
| "read_connects (e # effs) = read_connects effs"

text \<open>
  Counting what a run did: the private connections opened for version detection, the
  version queries issued, and the promises of collaborators that were rejected.
\<close>

fun is_private_connect :: "effect \<Rightarrow> bool" where
  "is_private_connect (Connect (Detection p) t) = True"
| "is_private_connect e = False"

fun is_version_query :: "effect \<Rightarrow> bool" where
  "is_version_query (VersionQuery p q) = True"
| "is_version_query e = False"

fun is_acquire :: "effect \<Rightarrow> bool" where
  "is_acquire (Acquire p c prio) = True"
| "is_acquire e = False"

fun is_failure :: "event \<Rightarrow> bool" where
  "is_failure (ConnectDone p (Inl err)) = True"
| "is_failure (QueryDone p (Inl err)) = True"
| "is_failure (DisconnectDone p (Some err)) = True"
| "is_failure e = False"

definition private_connects :: "effect list \<Rightarrow> nat" where
  "private_connects effs = length (filter is_private_connect effs)"

definition version_queries :: "effect list \<Rightarrow> nat" where
  "version_queries effs = length (filter is_version_query effs)"

definition failures :: "event list \<Rightarrow> nat" where
  "failures es = length (filter is_failure es)"

definition failed :: "event \<Rightarrow> nat" where
  "failed e = (if is_failure e then 1 else 0)"

text \<open>The rejections handed to the callers that wait for promise \<open>p\<close>.\<close>

definition rejections :: "error \<Rightarrow> nat \<Rightarrow> (nat \<times> nat \<times> options) list \<Rightarrow> effect list" where
  "rejections err p ws = map (\<lambda>w. Reject (fst (snd w)) err) (filter (\<lambda>w. fst w = p) ws)"

text \<open>
  The invariant of the detection: a chain that has not yet recorded the version is the one
  \<open>versionPromise\<close> refers to, and the version is then unresolved; a chain that is closing
  its connection has recorded a version; a callback on \<open>Promise.resolve()\<close> is pending
  only when the version is resolved.
\<close>

fun in_flight :: "phase \<Rightarrow> bool" where
  "in_flight Connecting = True"
| "in_flight (Querying c) = True"
| "in_flight (Disconnecting c) = False"

definition detecting_inv :: "manager \<Rightarrow> bool" where
  "detecting_inv m \<longleftrightarrow>
     (\<forall>p ph. detections m p = Some ph \<longrightarrow>
        (if in_flight ph then versionPromise m = Some p \<and> databaseVersion m = JNum 0
         else databaseVersion m \<noteq> JNum 0)) \<and>
     (deferred m \<noteq> [] \<longrightarrow> databaseVersion m \<noteq> JNum 0)"

definition started :: "manager \<Rightarrow> nat" where
  "started m = (if versionPromise m = None \<and> databaseVersion m = JNum 0 then 0 else 1)"

definition query_budget :: "manager \<Rightarrow> nat" where
  "query_budget m =
     (case versionPromise m of
        None \<Rightarrow> if databaseVersion m = JNum 0 then 1 else 0
      | Some p \<Rightarrow> if detections m p = Some Connecting then 1 else 0)"

text \<open>
  A promise is awaited when its chain has not yet recorded the version; the promise that
  \<open>versionPromise\<close> refers to is always one of these.
\<close>

definition awaited :: "manager \<Rightarrow> nat \<Rightarrow> bool" where
  "awaited m p = (case detections m p of None \<Rightarrow> False | Some ph \<Rightarrow> in_flight ph)"

definition promise_inv :: "manager \<Rightarrow> bool" where
  "promise_inv m \<longleftrightarrow> (case versionPromise m of None \<Rightarrow> True | Some p \<Rightarrow> awaited m p)"

subsection \<open>The pool engine's view of a handle\<close>

text \<open>
  Modelled from the spec: the Pool Engine (the generic-pool package) is not among the
  source files, which hold only the manager's calls to it. The spec gives a pool the
  handles its factory created (``begin an asynchronous create via the Factory''), has a
  handle ``exclusively owned by whichever caller currently holds it; returned to pool
  ownership on release'', and makes the release of ``a handle never created by this
  router'' an error condition. So a pool keeps the handles its \<open>create\<close> resolved with
  (\<open>resources\<close>) and those of them it has lent (\<open>loans\<close>): it lends a handle it holds and
  has not lent, \<open>destroy\<close> removes a handle, and \<open>release\<close> of a handle that is not on loan
  from the pool is rejected, as generic-pool does with the message below.
\<close>

definition not_in_pool_error :: error where
  "not_in_pool_error = Error ''Resource not currently part of this pool''"

record engine =
  resources :: "(pool_id \<times> connection) list"
  loans :: "(pool_id \<times> connection) list"

definition empty_engine :: engine where
  "empty_engine = \<lparr>resources = [], loans = []\<rparr>"

fun engine_event :: "engine \<Rightarrow> event \<Rightarrow> engine" where
  "engine_event g (Lend p c) =
     (if (p, c) \<in> set (resources g) \<and> (p, c) \<notin> set (loans g)
      then g\<lparr>loans := (p, c) # loans g\<rparr> else g)"
| "engine_event g (PoolDestroy p c) =
     g\<lparr>resources := removeAll (p, c) (resources g), loans := removeAll (p, c) (loans g)\<rparr>"
| "engine_event g e = g"

fun engine_effect :: "engine \<Rightarrow> effect \<Rightarrow> engine" where
  "engine_effect g (Created p k c) = g\<lparr>resources := (p, c) # resources g\<rparr>"
| "engine_effect g (Release p c) = g\<lparr>loans := removeAll (p, c) (loans g)\<rparr>"
| "engine_effect g e = g"

definition release_result :: "engine \<Rightarrow> pool_id \<Rightarrow> connection \<Rightarrow> error option" where
  "release_result g p c = (if (p, c) \<in> set (loans g) then None else Some not_in_pool_error)"

text \<open>The engine along a run of the manager: each turn's event, then the turn's effects.\<close>

fun engine_run :: "manager \<Rightarrow> engine \<Rightarrow> event list \<Rightarrow> engine" where
  "engine_run m g [] = g"
| "engine_run m g (e # es) =
     engine_run (fst (step m e)) (foldl engine_effect (engine_event g e) (snd (step m e))) es"

text \<open>
  The handles the factories handed to their pools in a run, and whether a handle carries
  the tag of a pool's factory.
\<close>

fun created_handles :: "effect list \<Rightarrow> connection list" where
  "created_handles [] = []"
| "created_handles (Created p k c # effs) = c # created_handles effs"
| "created_handles (e # effs) = created_handles effs"

fun tagged :: "pool_id \<Rightarrow> connection \<Rightarrow> bool" where
  "tagged ReadPool c = (queryType c = JStr ''read'')"
| "tagged WritePool c = (queryType c = JStr ''write'')"
| "tagged PlainPool c = True"

definition engine_ok :: "connection set \<Rightarrow> engine \<Rightarrow> bool" where
  "engine_ok S g \<longleftrightarrow>
     set (loans g) \<subseteq> set (resources g) \<and>
     (\<forall>(p, c) \<in> set (resources g). c \<in> S \<and> tagged p c)"

text \<open>
  The calls of the read factory in a run, each with the number of the call and the
  configuration it connected to, and the connections the read factory handed to its pool,
  each with the number of the call that made it.
\<close>

fun read_attempts :: "effect list \<Rightarrow> (nat \<times> target) list" where
  "read_attempts [] = []"
| "read_attempts (Connect (Factory ReadPool k) t # effs) = (k, t) # read_attempts effs"
| "read_attempts (e # effs) = read_attempts effs"

fun read_created :: "effect list \<Rightarrow> (nat \<times> connection) list" where
  "read_created [] = []"
| "read_created (Created ReadPool k c # effs) = (k, c) # read_created effs"
| "read_created (e # effs) = read_created effs"

definition ex_lend_events :: "event list" where
  "ex_lend_events =
     [InitPools, PoolCreate ReadPool, CreateDone 0 (Inr (ex_conn 1)),
      Lend ReadPool (tag ReadPool (ex_conn 1))]"

definition ex_failed_create_events :: "event list" where
  "ex_failed_create_events =
     [PoolCreate ReadPool, CreateDone 0 (Inl (Error ''refused'')),
      PoolCreate ReadPool, CreateDone 1 (Inr (ex_conn 5))]"

definition ex_success_events :: "event list" where
  "ex_success_events =
     [GetConnection None, ConnectDone 0 (Inr (ex_conn 1)), QueryDone 0 (Inr (JStr ''5.7.20''))]"

subsection \<open>The configuration objects in a store\<close>

text \<open>
  To tell a copy from a shared object, the configuration is laid out here as it lies in
  memory: every object and every array carries its address, and two references to the
  same object are two occurrences of the same address. \<open>LVal\<close> holds a value that is no
  object. \<open>erase\<close> forgets the addresses and leaves the value of the sections above.
\<close>

datatype ltree = LVal jsval | LObj nat "(string \<times> ltree) list" | LArr nat "ltree list"

primrec erase :: "ltree \<Rightarrow> jsval" where
  "erase (LVal v) = v"
| "erase (LObj a ps) = JObj (map (map_prod id erase) ps)"
| "erase (LArr a ts) = JArr (map erase ts)"

text \<open>The addresses of the objects of a value, and an address above all of them.\<close>

primrec label_list :: "ltree \<Rightarrow> nat list" where
  "label_list (LVal v) = []"
| "label_list (LObj a ps) = a # concat (map snd (map (map_prod id label_list) ps))"
| "label_list (LArr a ts) = a # concat (map label_list ts)"

definition labels :: "ltree \<Rightarrow> nat set" where
  "labels t = set (label_list t)"

definition labels_of :: "(string \<times> ltree) list \<Rightarrow> nat set" where
  "labels_of ps = (\<Union>p \<in> set ps. labels (snd p))"

definition bound :: "ltree \<Rightarrow> nat" where
  "bound t = Suc (foldr max (label_list t) 0)"

text \<open>
  \<open>_.cloneDeep(value)\<close> allocates a new object for every object and every array of its
  argument: the copy has the structure of the argument, each of its objects at an address
  that no object of the argument has. A function is a value here: \<open>_.cloneDeep\<close> keeps a
  function among the properties as it is, and no line of the manager assigns to a
  property of a function.
\<close>

primrec shift :: "nat \<Rightarrow> ltree \<Rightarrow> ltree" where
  "shift d (LVal v) = LVal v"
| "shift d (LObj a ps) = LObj (a + d) (map (map_prod id (shift d)) ps)"
| "shift d (LArr a ts) = LArr (a + d) (map (shift d) ts)"

definition cloneDeep_tree :: "ltree \<Rightarrow> ltree" where
  "cloneDeep_tree t = shift (bound t) t"

text \<open>
  Assignment in place: \<open>modify a f\<close> changes the properties of the object at address \<open>a\<close>
  by \<open>f\<close>, at every reference to it.
\<close>

primrec modify :: "nat \<Rightarrow> ((string \<times> ltree) list \<Rightarrow> (string \<times> ltree) list) \<Rightarrow> ltree \<Rightarrow> ltree" where
  "modify a f (LVal v) = LVal v"
| "modify a f (LObj b ps) =
     (if b = a then LObj b (f ps) else LObj b (map (map_prod id (modify a f)) ps))"
| "modify a f (LArr b ts) = LArr b (map (modify a f) ts)"

text \<open>
  Reading a property and \<open>_.defaults\<close>, as \<open>get\<close> and \<open>defaults\<close> above: a property
  assigned by \<open>_.defaults\<close> holds the very value of the source, so an object among the
  defaults is shared, not copied. \<open>literal\<close> is an object literal of values that are no
  objects, \<open>lprops\<close> the properties of an object, and \<open>omit_replication\<close> the properties
  that \<open>_.omit(config, 'replication')\<close> puts into its new object.
\<close>

definition lget :: "(string \<times> ltree) list \<Rightarrow> string \<Rightarrow> ltree" where
  "lget ps k = (case map_of ps k of None \<Rightarrow> LVal JUndefined | Some t \<Rightarrow> t)"

fun lassign_default :: "(string \<times> ltree) list \<Rightarrow> string \<times> ltree \<Rightarrow> (string \<times> ltree) list" where
  "lassign_default ps (k, v) = (if lget ps k = LVal JUndefined then AList.update k v ps else ps)"

definition ldefaults :: "(string \<times> ltree) list \<Rightarrow> (string \<times> ltree) list \<Rightarrow> (string \<times> ltree) list" where
  "ldefaults ps src = foldl lassign_default ps src"

definition literal :: "(string \<times> jsval) list \<Rightarrow> (string \<times> ltree) list" where
  "literal ps = map (map_prod id LVal) ps"

fun lprops :: "ltree \<Rightarrow> (string \<times> ltree) list" where
  "lprops (LObj a ps) = ps"
| "lprops t = []"

fun elements :: "ltree \<Rightarrow> ltree list" where
  "elements (LArr x ts) = ts"
| "elements t = []"

fun address :: "ltree \<Rightarrow> nat" where
  "address (LObj a ps) = a"
| "address (LArr a ts) = a"
| "address (LVal v) = 0"

definition omit_replication :: "(string \<times> ltree) list \<Rightarrow> (string \<times> ltree) list" where
  "omit_replication ps = filter (\<lambda>p. fst p \<noteq> ''replication'') ps"

text \<open>
  The store: the caller's \<open>sequelize.config\<close>, the manager's \<open>this.config\<close>, and the next
  free address. A write to the object at an address reaches every reference to that
  object, in the caller's configuration as in the manager's; \<open>assign a k v\<close> is
  \<open>object.k = v\<close> for the object at \<open>a\<close>, and \<open>allocate\<close> makes a new object.
\<close>

record store =
  caller :: ltree
  own :: ltree
  fresh :: nat

definition write_store ::
  "nat \<Rightarrow> ((string \<times> ltree) list \<Rightarrow> (string \<times> ltree) list) \<Rightarrow> store \<Rightarrow> store" where
  "write_store a f s = s\<lparr>caller := modify a f (caller s), own := modify a f (own s)\<rparr>"

definition assign :: "nat \<Rightarrow> string \<Rightarrow> ltree \<Rightarrow> store \<Rightarrow> store" where
  "assign a k v s = write_store a (AList.update k v) s"

definition allocate :: "(string \<times> ltree) list \<Rightarrow> store \<Rightarrow> ltree \<times> store" where
  "allocate ps s = (LObj (fresh s) ps, s\<lparr>fresh := fresh s + 1\<rparr>)"

definition root :: "store \<Rightarrow> nat" where
  "root s = address (own s)"

text \<open>
  The constructor, lines 19 to 32: \<open>config\<close> is the deep copy of the caller's object
  (the object at \<open>a\<close> with the properties \<open>ps\<close>); unless \<open>config.pool\<close> is \<open>false\<close>,
  \<open>_.defaults\<close> completes \<open>config.pool\<close> in place when it is an object, and a new
  object otherwise (\<open>{}\<close> for a falsy value, \<open>Object(value)\<close> for another value that is
  no object; an array is taken for such a value, as \<open>as_object\<close> does above), and the
  result is assigned to \<open>config.pool\<close>.
\<close>

definition pool_defaults :: "(string \<times> ltree) list \<Rightarrow> (string \<times> ltree) list" where
  "pool_defaults ps =
     ldefaults (ldefaults ps (literal defaultPoolingConfig))
       (literal [(''validate'', JFun ''_validate'')])"

definition constructor_store :: "nat \<Rightarrow> (string \<times> ltree) list \<Rightarrow> error + store" where
  "constructor_store a ps =
     (let s0 = \<lparr>caller = LObj a ps, own = cloneDeep_tree (LObj a ps),
                fresh = bound (LObj a ps) + bound (LObj a ps)\<rparr>;
          poolv = lget (lprops (own s0)) ''pool''
      in if poolv \<noteq> LVal (JBool False) then
           Inr (case poolv of
                  LObj b pps \<Rightarrow>
                    (let s1 = write_store b pool_defaults s0
                     in assign (root s1) ''pool'' (lget (lprops (own s1)) ''pool'') s1)
                | _ \<Rightarrow>
                    (let (obj, s1) = allocate (pool_defaults []) s0
                     in assign (root s1) ''pool'' obj s1))
         else Inl (Error ''Support for pool:false was removed in v4.0''))"

text \<open>
  \<open>initPools\<close> with replication, lines 100 to 110, on \<open>config.replication\<close> at address
  \<open>r\<close>. Line 101 wraps a \<open>read\<close> that is no array into a new array. Line 105 completes
  \<open>write\<close> with the top-level properties, in place when it is an object, and assigns the
  result to \<open>config.replication.write\<close>. Lines 108 to 110 complete every read target, in
  place when it is an object, and assign the new array that \<open>_.map\<close> returns to
  \<open>config.replication.read\<close>. Without a replication object the store is left as it is:
  for a falsy \<open>replication\<close> line 76 takes the other branch, which assigns to \<open>this.pool\<close>
  only, and for another value that is no object the assignment of line 101 throws
  (the file is in strict mode).
\<close>

definition replication_of :: "store \<Rightarrow> ltree" where
  "replication_of s = lget (lprops (own s)) ''replication''"

definition top_level :: "store \<Rightarrow> (string \<times> ltree) list" where
  "top_level s = omit_replication (lprops (own s))"

definition normalize_read_store :: "nat \<Rightarrow> store \<Rightarrow> store" where
  "normalize_read_store r s =
     (case lget (lprops (replication_of s)) ''read'' of
        LArr x ts \<Rightarrow> s
      | v \<Rightarrow> assign r ''read'' (LArr (fresh s) [v]) (s\<lparr>fresh := fresh s + 1\<rparr>))"

definition default_write_store :: "nat \<Rightarrow> store \<Rightarrow> store" where
  "default_write_store r s =
     (case lget (lprops (replication_of s)) ''write'' of
        LObj w ws \<Rightarrow>
          (let s1 = write_store w (\<lambda>ps. ldefaults ps (top_level s)) s
           in assign r ''write'' (lget (lprops (replication_of s1)) ''write'') s1)
      | v \<Rightarrow>
          (let (obj, s1) = allocate (ldefaults [] (top_level s)) s
           in assign r ''write'' obj s1))"

fun default_read_element :: "store \<Rightarrow> ltree \<Rightarrow> store" where
  "default_read_element s (LObj e es) = write_store e (\<lambda>ps. ldefaults ps (top_level s)) s"
| "default_read_element s t = s"

fun read_results :: "(string \<times> ltree) list \<Rightarrow> nat \<Rightarrow> ltree list \<Rightarrow> ltree list" where
  "read_results src n [] = []"
| "read_results src n (LObj e es # ts) = LObj e es # read_results src n ts"
| "read_results src n (t # ts) = LObj n (ldefaults [] src) # read_results src (n + 1) ts"

definition default_reads_store :: "nat \<Rightarrow> store \<Rightarrow> store" where
  "default_reads_store r s =
     (let s1 = foldl default_read_element s (elements (lget (lprops (replication_of s)) ''read''));
          now = elements (lget (lprops (replication_of s1)) ''read'');
          n = fresh s1 + length now
      in assign r ''read'' (LArr n (read_results (top_level s1) (fresh s1) now))
           (s1\<lparr>fresh := n + 1\<rparr>))"

definition init_pools_store :: "store \<Rightarrow> store" where
  "init_pools_store s =
     (case replication_of s of
        LObj r rs \<Rightarrow> default_reads_store r (default_write_store r (normalize_read_store r s))
      | _ \<Rightarrow> s)"

text \<open>
  \<open>_connect\<close> (lines 221 to 224) hands the configuration object it is called with to
  the \<open>beforeConnect\<close> hooks and to the dialect's \<open>connect\<close>: \<open>this.config\<close>,
  \<open>config.replication.write\<close> or a read target, each an object of the manager's
  configuration and no copy of it. Hooks and dialect are code outside this file;
  \<open>Hook a k v\<close> is such code assigning the value \<open>v\<close>, which is no reference to an
  object, to the property \<open>k\<close> of the object at \<open>a\<close> of the manager's configuration.
  A turn of the store is an operation of the manager or such an assignment. Of the
  operations \<open>initPools\<close> alone assigns to a property of a configuration object; the
  others leave the store as it is.
\<close>

definition hook_write :: "nat \<Rightarrow> string \<Rightarrow> jsval \<Rightarrow> store \<Rightarrow> store" where
  "hook_write a k v s = (if a \<in> labels (own s) then assign a k (LVal v) s else s)"

datatype turn = Operation event | Hook nat string jsval

fun store_step :: "store \<Rightarrow> turn \<Rightarrow> store" where
  "store_step s (Operation InitPools) = init_pools_store s"
| "store_step s (Operation e) = s"
| "store_step s (Hook a k v) = hook_write a k v s"

definition store_run :: "store \<Rightarrow> turn list \<Rightarrow> store" where
  "store_run s ts = foldl store_step s ts"

text \<open>
  The configuration of the sections above that an object holds, for an object whose leaves
  hold no objects (\<open>plain\<close>); and the separation of the two configurations: the caller's
  is \<open>c\<close>, no object of the manager's is at an address of \<open>c\<close>, and the addresses of
  \<open>c\<close> are not free. \<open>rest k ps\<close> are the properties of an object but the one that
  \<open>k\<close> reads, and \<open>complete src t\<close> is a target object \<open>t\<close> completed in place.
\<close>

definition config_of :: "ltree \<Rightarrow> configuration" where
  "config_of t =
     \<lparr>props = map (map_prod id erase) (omit_replication (lprops t)),
      replication =
        (case lget (lprops t) ''replication'' of
           LObj r rs \<Rightarrow> Some \<lparr>write_cfg = erase (lget rs ''write''), read_cfg = erase (lget rs ''read'')\<rparr>
         | _ \<Rightarrow> None)\<rparr>"

primrec plain :: "ltree \<Rightarrow> bool" where
  "plain (LVal v) = (case v of JObj ps \<Rightarrow> False | JArr xs \<Rightarrow> False | _ \<Rightarrow> True)"
| "plain (LObj a ps) = list_all snd (map (map_prod id plain) ps)"
| "plain (LArr a ts) = list_all id (map plain ts)"

fun rest :: "string \<Rightarrow> (string \<times> ltree) list \<Rightarrow> (string \<times> ltree) list" where
  "rest k [] = []"
| "rest k ((k', u) # ps) = (if k' = k then ps else (k', u) # rest k ps)"

fun complete :: "(string \<times> ltree) list \<Rightarrow> ltree \<Rightarrow> ltree" where
  "complete src (LObj e es) = LObj e (ldefaults es src)"
| "complete src t = t"

definition apart :: "ltree \<Rightarrow> store \<Rightarrow> bool" where
  "apart c s \<longleftrightarrow>
     caller s = c \<and> labels (own s) \<inter> labels c = {} \<and> (\<forall>a \<in> labels c. a < fresh s)"

text \<open>
  A caller's configuration with a single read target and no write target, the store the
  constructor makes of it, and turns with two calls of \<open>initPools\<close> and a hook in between.
\<close>

definition ex_props :: "(string \<times> ltree) list" where
  "ex_props =
     [(''database'', LVal (JStr ''db'')), (''host'', LVal (JStr ''main'')),
      (''replication'', LObj 1
         [(''write'', LVal JUndefined),
          (''read'', LObj 2 [(''host'', LVal (JStr ''replica''))])])]"

definition ex_store :: store where
  "ex_store =
     \<lparr>caller = LObj 0 ex_props,
      own = LObj 3
        [(''database'', LVal (JStr ''db'')), (''host'', LVal (JStr ''main'')),
         (''replication'', LObj 4
            [(''write'', LVal JUndefined),
             (''read'', LObj 5 [(''host'', LVal (JStr ''replica''))])]),
         (''pool'', LObj 6
            [(''max'', LVal (JNum 5)), (''min'', LVal (JNum 0)),
             (''idle'', LVal (JNum 10000)), (''handleDisconnects'', LVal (JBool True)),
             (''validate'', LVal (JFun ''_validate''))])],
      fresh = 7\<rparr>"

definition ex_turns :: "turn list" where
  "ex_turns = [Operation InitPools, Operation (GetConnection None),
     Hook 3 ''host'' (JStr ''elsewhere''), Operation InitPools]"

section \<open>Properties\<close>

subsection \<open>Runs\<close>

lemma fst_run_Cons: "fst (run m (e # es)) = fst (run (fst (step m e)) es)"
  by (cases "step m e"; cases "run (fst (step m e)) es") simp

lemma snd_run_Cons: "snd (run m (e # es)) = snd (step m e) @ snd (run (fst (step m e)) es)"
  by (cases "step m e"; cases "run (fst (step m e)) es") simp

lemma fst_run_append: "fst (run m (es @ es')) = fst (run (fst (run m es)) es')"
  by (induction es arbitrary: m) (simp_all add: fst_run_Cons del: run.simps(2))

lemma snd_run_append:
  "snd (run m (es @ es')) = snd (run m es) @ snd (run (fst (run m es)) es')"
  by (induction es arbitrary: m) (simp_all add: fst_run_Cons snd_run_Cons del: run.simps(2))

lemmas op_defs = init_pools_def get_connection_def release_connection_def close_def
  onProcessExit_def connect_done_def query_done_def disconnect_done_def pool_create_def
  create_done_def pool_destroy_def drained_def run_callbacks_def fail_def fulfil_def
  read_create_def write_create_def plain_create_def

lemmas op_splits = option.splits sum.splits phase.splits pool_kind.splits pool_id.splits
  getConnection_impl.splits prod.splits

lemma ex_manager_constructed:
  "constructor (Some ''5.6.0'') ex_valid ex_config (JNum 0) = Inr ex_manager"
  by (simp add: constructor_def ex_manager_def new_manager_def ex_config_def ex_pool_def
      cloneDeep_def get_def defaults_def defaultPoolingConfig_def Let_def)

lemma ex_repl_manager_constructed:
  "constructor (Some ''5.6.0'') ex_valid ex_repl_config (JNum 0) = Inr ex_repl_manager"
  by (simp add: constructor_def ex_repl_manager_def new_manager_def ex_repl_config_def
      ex_pool_def cloneDeep_def get_def defaults_def defaultPoolingConfig_def Let_def)

lemma ex_router_pool: "pool ex_router = Some Replicated"
  by (simp add: ex_router_def init_pools_def ex_repl_manager_def new_manager_def
      ex_repl_config_def ex_pool_def get_def Let_def)

subsection \<open>The closed state\<close>

lemma slot_step:
  "getConnection_slot m = RejectAfterClose \<Longrightarrow>
   getConnection_slot (fst (step m e)) = RejectAfterClose"
  by (cases e) (auto simp: op_defs Let_def split: op_splits)

lemma slot_run:
  "getConnection_slot m = RejectAfterClose \<Longrightarrow>
   getConnection_slot (fst (run m es)) = RejectAfterClose"
proof (induction es arbitrary: m)
  case Nil
  then show ?case by simp
next
  case (Cons e es)
  from Cons.prems have "getConnection_slot (fst (step m e)) = RejectAfterClose"
    by (rule slot_step)
  then have "getConnection_slot (fst (run (fst (step m e)) es)) = RejectAfterClose"
    by (rule Cons.IH)
  then show ?case by (simp only: fst_run_Cons)
qed

lemma slot_close: "getConnection_slot (fst (close m)) = RejectAfterClose"
  by (simp add: close_def split: prod.splits)

text \<open>
  C2. Once \<open>close\<close> has run, whatever happens afterwards (any sequence \<open>es\<close> of calls,
  callbacks and settled promises), the instance's \<open>getConnection\<close> is still the rejecting
  function: a call made then has the single effect of rejecting the caller's promise with
  the closed-manager error, and it leaves the manager as it was but for the caller
  counter, so it attaches no callback that could ask the pool for a connection later.
\<close>

theorem closed_is_terminal:
  "getConnection_slot (fst (run (fst (close m)) es)) = RejectAfterClose \<and>
   get_connection (fst (run (fst (close m)) es)) opts =
     ((fst (run (fst (close m)) es))
        \<lparr>next_caller := next_caller (fst (run (fst (close m)) es)) + 1\<rparr>,
      [Reject (next_caller (fst (run (fst (close m)) es))) closed_error])"
  using slot_run [OF slot_close, of m es]
  by (simp add: get_connection_def Let_def)

subsection \<open>The router's dispatch\<close>





lemmas run_eval = op_defs Let_def ex_manager_def new_manager_def ex_config_def ex_pool_def
  ex_conn_def get_def pool_acquire_def others_def empty_options_def detection_target_def
  valid_version_def default_version_def ex_valid_def

lemma pool_exists_iff:
  "pool_exists k p \<longleftrightarrow> (k = Some Plain \<and> p = PlainPool) \<or> (k = Some Replicated \<and> p \<noteq> PlainPool)"
  by (induction k p rule: pool_exists.induct) auto

subsection \<open>Releasing through the router\<close>

lemmas engine_eval = empty_engine_def release_result_def not_in_pool_error_def
  router_release_def ex_repl_manager_def ex_repl_config_def normalize_read_def defaults_def

lemma created_handles_append:
  "created_handles (xs @ ys) = created_handles xs @ created_handles ys"
  by (induction xs rule: created_handles.induct) simp_all

lemma tagged_tag: "tagged p (tag p c)"
  by (cases p) simp_all

lemma engine_ok_mono: "engine_ok S g \<Longrightarrow> S \<subseteq> S' \<Longrightarrow> engine_ok S' g"
  unfolding engine_ok_def by fastforce

lemma engine_ok_event: "engine_ok S g \<Longrightarrow> engine_ok S (engine_event g e)"
  unfolding engine_ok_def by (cases e) (auto split: if_splits)

lemma engine_ok_effect:
  assumes "engine_ok S g" and "\<And>p k c. eff = Created p k c \<Longrightarrow> c \<in> S \<and> tagged p c"
  shows "engine_ok S (engine_effect g eff)"
  using assms unfolding engine_ok_def by (cases eff) (auto split: if_splits)

lemma engine_ok_effects:
  assumes "engine_ok S g"
    and "\<And>p k c. Created p k c \<in> set effs \<Longrightarrow> c \<in> S \<and> tagged p c"
  shows "engine_ok S (foldl engine_effect g effs)"
  using assms
proof (induction effs arbitrary: g)
  case Nil
  then show ?case by simp
next
  case (Cons eff effs)
  have "engine_ok S (engine_effect g eff)"
    using Cons.prems by (intro engine_ok_effect) auto
  moreover have "\<And>p k c. Created p k c \<in> set effs \<Longrightarrow> c \<in> S \<and> tagged p c"
    using Cons.prems(2) by (meson list.set_intros(2))
  ultimately have "engine_ok S (foldl engine_effect (engine_effect g eff) effs)"
    by (rule Cons.IH)
  then show ?case by simp
qed

lemma created_in_handles: "Created p k c \<in> set effs \<Longrightarrow> c \<in> set (created_handles effs)"
  by (induction effs rule: created_handles.induct) auto

lemma created_acquire: "Created p k c \<notin> set (pool_acquire m a opts)"
  by (auto simp: pool_acquire_def split: op_splits)

lemma created_resume: "Created p k c \<notin> set (concat (map (resume m q) ws))"
  by (induction ws) (auto simp: created_acquire split: if_splits)

lemma created_refuse: "Created p k c \<notin> set (concat (map (refuse err q) ws))"
  by (induction ws) (auto split: if_splits)

lemma created_deferred: "Created p k c \<notin> set (concat (map (run_deferred m) ws))"
  by (induction ws) (auto simp: created_acquire)

lemma created_step_tagged: "Created p k c \<in> set (snd (step m e)) \<Longrightarrow> tagged p c"
  by (cases e)
    (auto simp: op_defs Let_def tagged_tag created_acquire
      router_drain_def router_destroyAllNow_def split: op_splits if_splits)

lemma engine_ok_run:
  "engine_ok S g \<Longrightarrow> engine_ok (S \<union> set (created_handles (snd (run m es)))) (engine_run m g es)"
proof (induction es arbitrary: m g S)
  case Nil
  then show ?case by simp
next
  case (Cons e es)
  let ?S' = "S \<union> set (created_handles (snd (step m e)))"
  have "engine_ok ?S' (engine_event g e)"
    using engine_ok_mono [OF engine_ok_event [OF Cons.prems]] by blast
  then have "engine_ok ?S' (foldl engine_effect (engine_event g e) (snd (step m e)))"
    by (rule engine_ok_effects) (auto dest: created_in_handles created_step_tagged)
  from Cons.IH [OF this, of "fst (step m e)"] show ?case
    by (simp add: snd_run_Cons created_handles_append Un_assoc del: run.simps(2))
qed

lemma engine_ok_empty: "engine_ok {} empty_engine"
  by (simp add: engine_ok_def empty_engine_def)

text \<open>
  C5. For a manager from the constructor whose pool is the router, after any run: the
  router's \<open>release\<close> hands a handle tagged \<open>'read'\<close> to the read pool's \<open>release\<close> and a
  handle tagged \<open>'write'\<close> to the write pool's. A handle that carries neither tag, or that
  no factory of this manager ever created, is an error condition: the router passes it to
  a sub-pool (the write pool unless it is tagged \<open>'read'\<close>) that has not lent it, and that
  pool's \<open>release\<close>, whose promise \<open>releaseConnection\<close> returns, is rejected.
\<close>

theorem release_routing:
  assumes "constructor dv valid cfg v = Inr m0" and "pool (fst (run m0 es)) = Some Replicated"
  shows "(queryType c = JStr ''read'' \<longrightarrow>
            release_connection (fst (run m0 es)) c = (fst (run m0 es), [Release ReadPool c])) \<and>
         (queryType c = JStr ''write'' \<longrightarrow>
            release_connection (fst (run m0 es)) c = (fst (run m0 es), [Release WritePool c])) \<and>
         ((queryType c \<noteq> JStr ''read'' \<and> queryType c \<noteq> JStr ''write'') \<or>
          c \<notin> set (created_handles (snd (run m0 es))) \<longrightarrow>
            release_connection (fst (run m0 es)) c =
              (fst (run m0 es), [Release (router_release c) c]) \<and>
            release_result (engine_run m0 empty_engine es) (router_release c) c =
              Some not_in_pool_error)"
proof -
  let ?g = "engine_run m0 empty_engine es"
  have ok: "engine_ok (set (created_handles (snd (run m0 es)))) ?g"
    using engine_ok_run [OF engine_ok_empty, of m0 es] by simp
  have rel: "release_connection (fst (run m0 es)) c =
      (fst (run m0 es), [Release (router_release c) c])"
    using assms(2) by (simp add: release_connection_def)
  have "(router_release c, c) \<notin> set (loans ?g)"
    if "(queryType c \<noteq> JStr ''read'' \<and> queryType c \<noteq> JStr ''write'') \<or>
        c \<notin> set (created_handles (snd (run m0 es)))"
  proof
    assume "(router_release c, c) \<in> set (loans ?g)"
    with ok have "c \<in> set (created_handles (snd (run m0 es)))" "tagged (router_release c) c"
      unfolding engine_ok_def by auto
    with that show False by (auto simp: router_release_def split: if_splits)
  qed
  then show ?thesis
    using rel by (auto simp: release_result_def router_release_def)
qed

theorem release_routing_witness:
  "release_connection (fst (run ex_repl_manager ex_lend_events)) (tag ReadPool (ex_conn 1)) =
     (fst (run ex_repl_manager ex_lend_events), [Release ReadPool (tag ReadPool (ex_conn 1))]) \<and>
   release_result (engine_run ex_repl_manager empty_engine ex_lend_events) ReadPool
     (tag ReadPool (ex_conn 1)) = None \<and>
   release_connection (fst (run ex_repl_manager ex_lend_events)) (ex_conn 7) =
     (fst (run ex_repl_manager ex_lend_events), [Release WritePool (ex_conn 7)]) \<and>
   release_result (engine_run ex_repl_manager empty_engine ex_lend_events) WritePool (ex_conn 7) =
     Some not_in_pool_error"
proof -
  have p: "pool (fst (run ex_repl_manager ex_lend_events)) = Some Replicated"
    by (simp add: ex_lend_events_def run_eval engine_eval pool_exists_iff)
  have t: "queryType (tag ReadPool (ex_conn 1)) = JStr ''read''"
    "queryType (ex_conn 7) \<noteq> JStr ''read'' \<and> queryType (ex_conn 7) \<noteq> JStr ''write''"
    "router_release (ex_conn 7) = WritePool"
    by (simp_all add: ex_conn_def router_release_def)
  have l: "release_result (engine_run ex_repl_manager empty_engine ex_lend_events) ReadPool
     (tag ReadPool (ex_conn 1)) = None"
    by (simp add: ex_lend_events_def run_eval engine_eval pool_exists_iff)
  from release_routing [OF ex_repl_manager_constructed p, of "tag ReadPool (ex_conn 1)"] t(1)
  have a: "release_connection (fst (run ex_repl_manager ex_lend_events)) (tag ReadPool (ex_conn 1)) =
     (fst (run ex_repl_manager ex_lend_events), [Release ReadPool (tag ReadPool (ex_conn 1))])"
    by blast
  from release_routing [OF ex_repl_manager_constructed p, of "ex_conn 7"] t(2)
  have b: "release_connection (fst (run ex_repl_manager ex_lend_events)) (ex_conn 7) =
       (fst (run ex_repl_manager ex_lend_events), [Release (router_release (ex_conn 7)) (ex_conn 7)]) \<and>
     release_result (engine_run ex_repl_manager empty_engine ex_lend_events)
       (router_release (ex_conn 7)) (ex_conn 7) = Some not_in_pool_error"
    by blast
  from a b l show ?thesis by (simp only: t(3) simp_thms)
qed

subsection \<open>Releasing after close\<close>

lemma pool_close: "pool (fst (close m)) = pool m"
  by (simp add: close_def onProcessExit_def split: op_splits)

lemma pool_step: "e \<noteq> InitPools \<Longrightarrow> pool (fst (step m e)) = pool m"
  by (cases e) (auto simp: op_defs Let_def split: op_splits)

lemma pool_run: "InitPools \<notin> set es \<Longrightarrow> pool (fst (run m es)) = pool m"
  by (induction es arbitrary: m) (auto simp add: fst_run_Cons pool_step simp del: run.simps(2))

text \<open>
  C9. \<open>close\<close> replaces the instance's \<open>getConnection\<close> only: \<open>this.pool\<close> is the same
  afterwards and stays so in any run that follows (as long as \<open>initPools\<close> is not called
  anew), and \<open>releaseConnection\<close> on the closed manager does what it did before the
  \<open>close\<close>: a handle still held when the manager is closed goes back to its pool (the
  plain pool, or the sub-pool its tag selects), and no closed-manager error arises.
\<close>

theorem release_after_close:
  "pool (fst (close m)) = pool m \<and>
   (InitPools \<notin> set es \<longrightarrow>
      pool (fst (run (fst (close m)) es)) = pool m \<and>
      release_connection (fst (run (fst (close m)) es)) c =
        (fst (run (fst (close m)) es), snd (release_connection m c)) \<and>
      (pool m = Some Plain \<longrightarrow>
         snd (release_connection (fst (run (fst (close m)) es)) c) = [Release PlainPool c]) \<and>
      (pool m = Some Replicated \<longrightarrow>
         snd (release_connection (fst (run (fst (close m)) es)) c) =
           [Release (router_release c) c]))"
proof -
  have "pool (fst (run (fst (close m)) es)) = pool m" if "InitPools \<notin> set es"
    using pool_run [OF that, of "fst (close m)"] by (simp add: pool_close)
  then show ?thesis
    by (auto simp: release_connection_def pool_close split: op_splits)
qed

theorem release_after_close_witness:
  "getConnection_slot (fst (run (fst (close ex_router)) [GetConnection None, RunCallbacks])) =
     RejectAfterClose \<and>
   snd (release_connection (fst (run (fst (close ex_router)) [GetConnection None, RunCallbacks]))
          (tag ReadPool (ex_conn 1))) =
     [Release ReadPool (tag ReadPool (ex_conn 1))]"
proof -
  have "router_release (tag ReadPool (ex_conn 1)) = ReadPool"
    by (simp add: router_release_def)
  moreover have "InitPools \<notin> set [GetConnection None, RunCallbacks]"
    by simp
  then have "snd (release_connection
        (fst (run (fst (close ex_router)) [GetConnection None, RunCallbacks]))
        (tag ReadPool (ex_conn 1))) =
      [Release (router_release (tag ReadPool (ex_conn 1))) (tag ReadPool (ex_conn 1))]"
    using release_after_close [of ex_router "[GetConnection None, RunCallbacks]"
        "tag ReadPool (ex_conn 1)"] ex_router_pool
    by blast
  ultimately show ?thesis
    using slot_run [OF slot_close, of ex_router "[GetConnection None, RunCallbacks]"]
    by (simp only: simp_thms)
qed

subsection \<open>Round robin over the read targets\<close>

lemma read_connects_append: "read_connects (xs @ ys) = read_connects xs @ read_connects ys"
  by (induction xs rule: read_connects.induct) simp_all

lemma read_connects_acquire: "read_connects (pool_acquire m c opts) = []"
  by (simp add: pool_acquire_def split: op_splits)

lemma read_connects_resume: "read_connects (concat (map (resume m p) ws)) = []"
  by (induction ws) (auto simp: read_connects_append read_connects_acquire)

lemma read_connects_refuse: "read_connects (concat (map (refuse err p) ws)) = []"
  by (induction ws) (auto simp: read_connects_append)

lemma read_connects_deferred: "read_connects (concat (map (run_deferred m) ws)) = []"
  by (induction ws) (auto simp: read_connects_append read_connects_acquire)

lemma config_step: "e \<noteq> InitPools \<Longrightarrow> config (fst (step m e)) = config m"
  by (cases e) (auto simp: op_defs Let_def split: op_splits)

lemma reads_step:
  "e \<noteq> InitPools \<Longrightarrow>
   reads (fst (step m e)) =
     (if e = PoolCreate ReadPool \<and> pool m = Some Replicated then reads m + 1 else reads m)"
  by (cases e) (auto simp: op_defs Let_def pool_exists_iff split: op_splits)

lemma read_connects_step:
  assumes "pool m = Some Replicated" "replication (config m) = Some r" "read_cfg r = JArr ts"
    "ts \<noteq> []" "e \<noteq> InitPools"
  shows "read_connects (snd (step m e)) =
     (if e = PoolCreate ReadPool then [Target (ts ! (reads m mod length ts))] else [])"
  using assms
  by (cases e) (auto simp: op_defs Let_def read_connects_resume read_connects_refuse
      read_connects_deferred router_drain_def router_destroyAllNow_def pool_exists_iff
      split: op_splits)

lemma round_robin_gen:
  assumes "pool m = Some Replicated" "replication (config m) = Some r" "read_cfg r = JArr ts"
    "ts \<noteq> []" "InitPools \<notin> set es"
  shows "read_connects (snd (run m es)) =
           map (\<lambda>k. Target (ts ! ((reads m + k) mod length ts)))
             [0..<count_list es (PoolCreate ReadPool)] \<and>
         reads (fst (run m es)) = reads m + count_list es (PoolCreate ReadPool)"
  using assms
proof (induction es arbitrary: m)
  case Nil
  then show ?case by simp
next
  case (Cons e es)
  let ?m' = "fst (step m e)"
  from Cons.prems have ne: "e \<noteq> InitPools" and rest: "InitPools \<notin> set es" by auto
  have p': "pool ?m' = Some Replicated" using Cons.prems(1) ne by (simp add: pool_step)
  have c': "replication (config ?m') = Some r" using Cons.prems(2) ne by (simp add: config_step)
  note IH = Cons.IH [OF p' c' Cons.prems(3) Cons.prems(4) rest]
  have hd: "read_connects (snd (step m e)) =
     (if e = PoolCreate ReadPool then [Target (ts ! (reads m mod length ts))] else [])"
    using Cons.prems(1-4) ne by (rule read_connects_step)
  have rd: "reads ?m' = (if e = PoolCreate ReadPool then reads m + 1 else reads m)"
    using Cons.prems(1) ne by (simp add: reads_step)
  show ?case
  proof (cases "e = PoolCreate ReadPool")
    case True
    have shift: "map (\<lambda>k. Target (ts ! ((reads m + k) mod length ts))) [0..<Suc n] =
        Target (ts ! (reads m mod length ts)) #
        map (\<lambda>k. Target (ts ! ((reads m + 1 + k) mod length ts))) [0..<n]" for n
      by (simp add: map_upt_Suc del: upt_Suc)
    from True IH hd rd show ?thesis
      by (simp add: fst_run_Cons snd_run_Cons read_connects_append shift
          del: run.simps(2) upt_Suc)
  next
    case False
    with IH hd rd show ?thesis
      by (simp add: fst_run_Cons snd_run_Cons read_connects_append del: run.simps(2))
  qed
qed

lemma init_pools_replicated:
  assumes "replication (config m0) = Some r0"
    "pool_settings_of (get (props (config m0)) ''pool'') = Inr ps"
  shows "pool (fst (init_pools m0)) = Some Replicated"
    and "replication (config (fst (init_pools m0))) =
       Some \<lparr>write_cfg = JObj (defaults (as_object (write_cfg r0)) (props (config m0))),
             read_cfg = JArr (map (\<lambda>rc. JObj (defaults (as_object rc) (props (config m0))))
                          (normalize_read (read_cfg r0)))\<rparr>"
    and "reads (fst (init_pools m0)) = 0"
  using assms by (simp_all add: init_pools_def Let_def)

lemma round_robin_targets:
  assumes "replication (config m0) = Some r0"
    and "pool_settings_of (get (props (config m0)) ''pool'') = Inr ps"
    and "normalize_read (read_cfg r0) \<noteq> []"
    and "InitPools \<notin> set es"
  shows "read_connects (snd (run (fst (init_pools m0)) es)) =
           map (\<lambda>k. Target (JObj (defaults
                  (as_object (normalize_read (read_cfg r0) ! (k mod length (normalize_read (read_cfg r0)))))
                  (props (config m0)))))
             [0..<count_list es (PoolCreate ReadPool)] \<and>
         reads (fst (run (fst (init_pools m0)) es)) = count_list es (PoolCreate ReadPool)"
proof -
  let ?ts = "map (\<lambda>rc. JObj (defaults (as_object rc) (props (config m0))))
               (normalize_read (read_cfg r0))"
  let ?r = "\<lparr>write_cfg = JObj (defaults (as_object (write_cfg r0)) (props (config m0))),
             read_cfg = JArr ?ts\<rparr>"
  have ne: "?ts \<noteq> []" using assms(3) by simp
  have rc: "read_cfg ?r = JArr ?ts" by simp
  note g = round_robin_gen [OF init_pools_replicated(1) [OF assms(1,2)]
      init_pools_replicated(2) [OF assms(1,2)] rc ne assms(4)]
  have nth: "?ts ! (k mod length ?ts) =
      JObj (defaults (as_object (normalize_read (read_cfg r0) ! (k mod length (normalize_read (read_cfg r0)))))
        (props (config m0)))" for k
    using assms(3) by (simp add: nth_map)
  from g show ?thesis
    using nth by (simp add: init_pools_replicated(3) [OF assms(1,2)] del: length_map)
qed

lemma read_attempts_append: "read_attempts (xs @ ys) = read_attempts xs @ read_attempts ys"
  by (induction xs rule: read_attempts.induct) simp_all

lemma read_created_append: "read_created (xs @ ys) = read_created xs @ read_created ys"
  by (induction xs rule: read_created.induct) simp_all

lemma read_attempts_connects: "map snd (read_attempts effs) = read_connects effs"
  by (induction effs rule: read_attempts.induct) simp_all

lemma read_attempts_acquire [simp]: "read_attempts (pool_acquire m c opts) = []"
  "read_created (pool_acquire m c opts) = []"
  by (simp_all add: pool_acquire_def split: op_splits)

lemma read_attempts_resume [simp]: "read_attempts (concat (map (resume m p) ws)) = []"
  "read_created (concat (map (resume m p) ws)) = []"
  by (induction ws) (auto simp: read_attempts_append read_created_append)

lemma read_attempts_refuse [simp]: "read_attempts (concat (map (refuse err p) ws)) = []"
  "read_created (concat (map (refuse err p) ws)) = []"
  by (induction ws) (auto simp: read_attempts_append read_created_append)

lemma read_attempts_deferred [simp]: "read_attempts (concat (map (run_deferred m) ws)) = []"
  "read_created (concat (map (run_deferred m) ws)) = []"
  by (induction ws) (auto simp: read_attempts_append read_created_append)

lemma read_attempt_ids_step:
  "map fst (read_attempts (snd (step m e))) =
     (if map fst (read_attempts (snd (step m e))) = [] then [] else [next_create m])"
  by (cases e) (auto simp: op_defs Let_def router_drain_def router_destroyAllNow_def
      split: op_splits)

lemma next_create_step:
  "next_create m \<le> next_create (fst (step m e)) \<and>
   (read_attempts (snd (step m e)) \<noteq> [] \<longrightarrow> next_create m < next_create (fst (step m e)))"
  by (cases e) (auto simp: op_defs Let_def router_drain_def router_destroyAllNow_def
      split: op_splits)

lemma creating_step:
  "creating (fst (step m e)) k = Some ReadPool \<Longrightarrow>
   creating m k = Some ReadPool \<or> k \<in> set (map fst (read_attempts (snd (step m e))))"
  by (cases e) (auto simp: op_defs Let_def router_drain_def router_destroyAllNow_def
      split: op_splits if_splits)

lemma read_created_single:
  "read_created [Created p k c] = (if p = ReadPool then [(k, c)] else [])"
  by (cases p) simp_all

lemma read_created_step:
  "(k, c) \<in> set (read_created (snd (step m e))) \<Longrightarrow>
   creating m k = Some ReadPool \<and> queryType c = JStr ''read''"
  by (cases e) (auto simp: op_defs Let_def router_drain_def router_destroyAllNow_def
      read_created_single split: op_splits if_splits)

lemma read_attempt_ids_run:
  "distinct (map fst (read_attempts (snd (run m es)))) \<and>
   (\<forall>k \<in> set (map fst (read_attempts (snd (run m es)))). next_create m \<le> k) \<and>
   next_create m \<le> next_create (fst (run m es))"
proof (induction es arbitrary: m)
  case Nil
  then show ?case by simp
next
  case (Cons e es)
  let ?m' = "fst (step m e)"
  note IH = Cons.IH [of ?m']
  note n = next_create_step [of m e]
  note i = read_attempt_ids_step [of m e]
  show ?case
  proof (cases "map fst (read_attempts (snd (step m e))) = []")
    case True
    with IH n show ?thesis
      by (auto simp add: fst_run_Cons snd_run_Cons read_attempts_append simp del: run.simps(2))
  next
    case False
    with i have h: "map fst (read_attempts (snd (step m e))) = [next_create m]" by metis
    from False n have lt: "next_create m < next_create ?m'" by auto
    from IH lt h show ?thesis
      by (fastforce simp add: fst_run_Cons snd_run_Cons read_attempts_append
          simp del: run.simps(2))
  qed
qed

lemma read_created_run:
  assumes "\<And>k. creating m k = Some ReadPool \<Longrightarrow> k \<in> A"
  shows "\<forall>(k, c) \<in> set (read_created (snd (run m es))).
           (k \<in> A \<or> k \<in> set (map fst (read_attempts (snd (run m es))))) \<and>
           queryType c = JStr ''read''"
  using assms
proof (induction es arbitrary: m A)
  case Nil
  then show ?case by simp
next
  case (Cons e es)
  let ?m' = "fst (step m e)"
  let ?A' = "A \<union> set (map fst (read_attempts (snd (step m e))))"
  have "\<And>k. creating ?m' k = Some ReadPool \<Longrightarrow> k \<in> ?A'"
    using creating_step [of m e] Cons.prems by blast
  from Cons.IH [OF this]
  have IH: "\<forall>(k, c) \<in> set (read_created (snd (run ?m' es))).
           (k \<in> ?A' \<or> k \<in> set (map fst (read_attempts (snd (run ?m' es))))) \<and>
           queryType c = JStr ''read''" .
  have hd: "\<forall>(k, c) \<in> set (read_created (snd (step m e))). k \<in> A \<and> queryType c = JStr ''read''"
    using read_created_step [of _ _ m e] Cons.prems by blast
  from IH hd show ?case
    by (auto simp add: snd_run_Cons read_created_append read_attempts_append
        simp del: run.simps(2))
qed

lemma get_update: "get (AList.update k v ps) k = v"
  by (simp add: get_def update_conv')

lemma constructor_state:
  assumes "constructor dv valid cfg v = Inr m0"
  shows "replication (config m0) = replication cfg"
    and "\<exists>ps. pool_settings_of (get (props (config m0)) ''pool'') = Inr ps"
    and "creating m0 = Map.empty"
  using assms
  by (auto simp: constructor_def cloneDeep_def Let_def get_update split: if_splits)

text \<open>
  C4 (as the code has it). For a manager from the constructor, with replication configured
  and \<open>R > 0\<close> read targets once \<open>initPools\<close> has normalized them to a list, consider any
  run after \<open>initPools\<close> in which it is not called again. The calls of the read pool's
  \<open>create\<close>, whether or not their connect succeeds, connect in order to the targets
  \<open>0 mod R, 1 mod R, 2 mod R, ...\<close> (each completed with the top-level properties), and
  the counter \<open>reads\<close> equals the number of those calls: no other turn, in particular no
  \<open>getConnection\<close>, acquisition callback, lending or \<open>releaseConnection\<close>, advances it.
  The calls have distinct numbers, and every connection the read factory hands to its
  pool carries the tag \<open>'read'\<close> and the number of the one call that connected it, so a
  handle keeps the target of that call however often the pool lends it.
\<close>

theorem round_robin:
  assumes "constructor dv valid cfg v = Inr m0"
    and "replication cfg = Some r0"
    and "normalize_read (read_cfg r0) \<noteq> []"
    and "InitPools \<notin> set es"
  shows "map snd (read_attempts (snd (run (fst (init_pools m0)) es))) =
           map (\<lambda>k. Target (JObj (defaults
                  (as_object (normalize_read (read_cfg r0) ! (k mod length (normalize_read (read_cfg r0)))))
                  (props (config m0)))))
             [0..<count_list es (PoolCreate ReadPool)] \<and>
         reads (fst (run (fst (init_pools m0)) es)) = count_list es (PoolCreate ReadPool) \<and>
         distinct (map fst (read_attempts (snd (run (fst (init_pools m0)) es)))) \<and>
         (\<forall>(k, c) \<in> set (read_created (snd (run (fst (init_pools m0)) es))).
            k \<in> set (map fst (read_attempts (snd (run (fst (init_pools m0)) es)))) \<and>
            queryType c = JStr ''read'')"
proof -
  have r: "replication (config m0) = Some r0"
    using constructor_state(1) [OF assms(1)] assms(2) by simp
  obtain ps where ps: "pool_settings_of (get (props (config m0)) ''pool'') = Inr ps"
    using constructor_state(2) [OF assms(1)] by blast
  have c: "creating (fst (init_pools m0)) k = Some ReadPool \<Longrightarrow> k \<in> {}" for k
    using constructor_state(3) [OF assms(1)] r ps by (simp add: init_pools_def Let_def)
  from round_robin_targets [OF r ps assms(3,4)]
  have a: "map snd (read_attempts (snd (run (fst (init_pools m0)) es))) =
           map (\<lambda>k. Target (JObj (defaults
                  (as_object (normalize_read (read_cfg r0) ! (k mod length (normalize_read (read_cfg r0)))))
                  (props (config m0)))))
             [0..<count_list es (PoolCreate ReadPool)]"
    and b: "reads (fst (run (fst (init_pools m0)) es)) = count_list es (PoolCreate ReadPool)"
    by (simp_all only: read_attempts_connects)
  have d: "distinct (map fst (read_attempts (snd (run (fst (init_pools m0)) es))))"
    using read_attempt_ids_run [of "fst (init_pools m0)" es] by blast
  have e: "\<forall>(k, c) \<in> set (read_created (snd (run (fst (init_pools m0)) es))).
            k \<in> set (map fst (read_attempts (snd (run (fst (init_pools m0)) es)))) \<and>
            queryType c = JStr ''read''"
    using read_created_run [of "fst (init_pools m0)" "{}" es, OF c] by simp
  from a b d e show ?thesis by blast
qed

theorem round_robin_witness:
  "map snd (read_attempts (snd (run ex_router ex_create_events))) =
     [Target (JObj [(''host'', JStr ''replica1''), (''database'', JStr ''db''), (''pool'', ex_pool)]),
      Target (JObj [(''host'', JStr ''replica2''), (''database'', JStr ''db''), (''pool'', ex_pool)]),
      Target (JObj [(''host'', JStr ''replica1''), (''database'', JStr ''db''), (''pool'', ex_pool)])] \<and>
   reads (fst (run ex_router ex_create_events)) = 3 \<and>
   read_created (snd (run ex_router ex_failed_create_events)) = [(1, tag ReadPool (ex_conn 5))] \<and>
   map fst (read_attempts (snd (run ex_router ex_failed_create_events))) = [0, 1]"
proof -
  have a: "replication ex_repl_config = Some \<lparr>write_cfg = JObj [(''host'', JStr ''master'')],
         read_cfg = JArr [JObj [(''host'', JStr ''replica1'')],
                          JObj [(''host'', JStr ''replica2'')]]\<rparr>"
    by (simp add: ex_repl_config_def)
  have c: "normalize_read (read_cfg \<lparr>write_cfg = JObj [(''host'', JStr ''master'')],
         read_cfg = JArr [JObj [(''host'', JStr ''replica1'')],
                          JObj [(''host'', JStr ''replica2'')]]\<rparr>) \<noteq> []"
    by (simp add: normalize_read_def)
  have d: "InitPools \<notin> set ex_create_events" "InitPools \<notin> set ex_failed_create_events"
    by (simp_all add: ex_create_events_def ex_failed_create_events_def)
  have n: "count_list ex_create_events (PoolCreate ReadPool) = 3"
    by (simp add: ex_create_events_def)
  have u: "[0..<3] = [0, 1, 2]" by (simp add: upt_rec)
  have f: "read_created (snd (run ex_router ex_failed_create_events)) = [(1, tag ReadPool (ex_conn 5))]"
    "map fst (read_attempts (snd (run ex_router ex_failed_create_events))) = [0, 1]"
    by (simp_all add: ex_failed_create_events_def ex_router_def run_eval engine_eval
        pool_exists_iff numeral_2_eq_2 [symmetric])
  have "map snd (read_attempts (snd (run ex_router ex_create_events))) =
     [Target (JObj [(''host'', JStr ''replica1''), (''database'', JStr ''db''), (''pool'', ex_pool)]),
      Target (JObj [(''host'', JStr ''replica2''), (''database'', JStr ''db''), (''pool'', ex_pool)]),
      Target (JObj [(''host'', JStr ''replica1''), (''database'', JStr ''db''), (''pool'', ex_pool)])] \<and>
   reads (fst (run ex_router ex_create_events)) = 3"
    using round_robin [OF ex_repl_manager_constructed a c d(1)]
    by (simp add: n u ex_router_def normalize_read_def ex_repl_manager_def new_manager_def
        defaults_def get_def numeral_2_eq_2 [symmetric])
  with f show ?thesis by simp
qed

text \<open>
  The claim that the k-th read connection created is opened against target \<open>k mod R\<close>,
  the counter advancing once per created connection, fails when a connect fails: the
  counter was advanced before the outcome is known. Here the first call's connect is
  refused, and the first connection ever created is on the second target, with the
  counter at 2.
\<close>

theorem failed_create_counterexample:
  "snd (run ex_router ex_failed_create_events) =
     [Connect (Factory ReadPool 0)
        (Target (JObj [(''host'', JStr ''replica1''), (''database'', JStr ''db''), (''pool'', ex_pool)])),
      CreateFailed ReadPool 0 (Error ''refused''),
      Connect (Factory ReadPool 1)
        (Target (JObj [(''host'', JStr ''replica2''), (''database'', JStr ''db''), (''pool'', ex_pool)])),
      Created ReadPool 1 (tag ReadPool (ex_conn 5))] \<and>
   reads (fst (run ex_router ex_failed_create_events)) = 2"
  by (simp add: ex_failed_create_events_def ex_router_def run_eval engine_eval pool_exists_iff
      numeral_2_eq_2 [symmetric])

subsection \<open>The configuration after construction\<close>

lemma props_step: "props (config (fst (step m e))) = props (config m)"
  by (cases e) (auto simp: op_defs Let_def split: op_splits)

lemma config_step_plain:
  "replication (config m) = None \<Longrightarrow> config (fst (step m e)) = config m"
  by (cases e) (auto simp: op_defs Let_def split: op_splits)

lemma props_run: "props (config (fst (run m es))) = props (config m)"
  by (induction es arbitrary: m) (simp_all add: fst_run_Cons props_step del: run.simps(2))

lemma config_run_plain:
  "replication (config m) = None \<Longrightarrow> config (fst (run m es)) = config m"
  by (induction es arbitrary: m) (simp_all add: fst_run_Cons config_step_plain del: run.simps(2))

lemma config_run:
  "InitPools \<notin> set es \<Longrightarrow> config (fst (run m es)) = config m"
  by (induction es arbitrary: m) (auto simp add: fst_run_Cons config_step simp del: run.simps(2))

lemma constructor_fields:
  assumes "constructor dv valid c v = Inr m"
  shows "sequelize_config m = c" and "replication (config m) = replication c"
    and "props (config m) = AList.update ''pool''
       (JObj (defaults (defaults
          (as_object (if js_truthy (get (props c) ''pool'') then get (props c) ''pool'' else JObj []))
          defaultPoolingConfig) [(''validate'', JFun ''_validate'')])) (props c)"
  using assms by (auto simp: constructor_def cloneDeep_def Let_def split: if_splits)

text \<open>
  On the store: the addresses an assignment can bring into an object, then the separation
  of the two configurations, which every turn keeps.
\<close>

lemma labels_simps [simp]:
  "labels (LVal v) = {}"
  "labels (LObj a ps) = insert a (labels_of ps)"
  "labels (LArr a ts) = insert a (\<Union>t \<in> set ts. labels t)"
  by (auto simp: labels_def labels_of_def)

lemma labels_of_simps [simp]:
  "labels_of [] = {}"
  "labels_of ((k, t) # ps) = labels t \<union> labels_of ps"
  "labels_of (ps @ qs) = labels_of ps \<union> labels_of qs"
  by (auto simp: labels_of_def)

lemma labels_of_mem: "(k, t) \<in> set ps \<Longrightarrow> labels t \<subseteq> labels_of ps"
  by (auto simp: labels_of_def)

lemma labels_of_map:
  "labels_of (map (map_prod id g) ps) = (\<Union>p \<in> set ps. labels (g (snd p)))"
  by (auto simp: labels_of_def)

lemma foldr_max_greater: "a \<in> set xs \<Longrightarrow> a \<le> foldr max xs (0::nat)"
  by (induction xs) auto

lemma bound_greater: "a \<in> labels t \<Longrightarrow> a < bound t"
  using foldr_max_greater [of a "label_list t"] by (simp add: bound_def labels_def)

lemma labels_shift: "labels (shift d t) = (\<lambda>a. a + d) ` labels t"
proof (induction t)
  case (LVal v)
  then show ?case by simp
next
  case (LObj b ps)
  have "labels (shift d (snd p)) = (\<lambda>a. a + d) ` labels (snd p)" if "p \<in> set ps" for p
    using LObj.IH [of p "snd p"] that by (cases p) simp
  then show ?case by (auto simp: labels_of_map labels_of_def)
next
  case (LArr b ts)
  then show ?case by auto
qed

lemma modify_id: "a \<notin> labels t \<Longrightarrow> modify a f t = t"
proof (induction t)
  case (LVal v)
  then show ?case by simp
next
  case (LObj b ps)
  have "map (map_prod id (modify a f)) ps = ps"
  proof (rule map_idI)
    fix p assume p: "p \<in> set ps"
    obtain k t where kt: "p = (k, t)" by (cases p)
    with p LObj.prems have "a \<notin> labels t" using labels_of_mem [of k t ps] by auto
    with LObj.IH [of p t] p kt show "map_prod id (modify a f) p = p" by simp
  qed
  with LObj.prems show ?case by simp
next
  case (LArr b ts)
  have "map (modify a f) ts = ts"
    by (rule map_idI) (use LArr in auto)
  then show ?case by simp
qed

lemma modify_labels:
  assumes "\<And>ps. labels_of (f ps) \<subseteq> labels_of ps \<union> L"
  shows "labels (modify a f t) \<subseteq> labels t \<union> L"
proof (induction t)
  case (LVal v)
  then show ?case by simp
next
  case (LObj b ps)
  have "labels (modify a f (snd p)) \<subseteq> labels (snd p) \<union> L" if "p \<in> set ps" for p
    using LObj.IH [of p "snd p"] that by (cases p) simp
  then have "labels_of (map (map_prod id (modify a f)) ps) \<subseteq> labels_of ps \<union> L"
    by (auto simp: labels_of_map labels_of_def)
  with assms [of ps] show ?case by auto
next
  case (LArr b ts)
  then show ?case by auto
qed

lemma address_modify [simp]: "address (modify a f t) = address t"
  by (cases t) simp_all

lemma address_labels: "address (LObj a ps) \<in> labels (LObj a ps)"
  by simp

lemma labels_of_update: "labels_of (AList.update k v ps) \<subseteq> labels_of ps \<union> labels v"
  by (induction ps) auto

lemma labels_lget: "labels (lget ps k) \<subseteq> labels_of ps"
  using labels_of_mem [of k _ ps] by (auto simp: lget_def dest: map_of_SomeD split: option.splits)

lemma labels_of_lassign: "labels_of (lassign_default ps p) \<subseteq> labels_of ps \<union> labels (snd p)"
  using labels_of_update [of "fst p" "snd p" ps] by (cases p) auto

lemma labels_of_ldefaults: "labels_of (ldefaults ps src) \<subseteq> labels_of ps \<union> labels_of src"
  unfolding ldefaults_def
proof (induction src arbitrary: ps)
  case Nil
  then show ?case by simp
next
  case (Cons p src)
  obtain k v where p: "p = (k, v)" by (cases p)
  from Cons [of "lassign_default ps p"] labels_of_lassign [of ps p]
  show ?case unfolding p by auto
qed

lemma labels_of_literal [simp]: "labels_of (literal ps) = {}"
  by (auto simp: labels_of_def literal_def)

lemma labels_of_omit: "labels_of (omit_replication ps) \<subseteq> labels_of ps"
  by (auto simp: labels_of_def omit_replication_def)

lemma labels_of_lprops: "labels_of (lprops t) \<subseteq> labels t"
  by (cases t) auto

lemma labels_property: "labels (lget (lprops t) k) \<subseteq> labels t"
  using labels_lget [of "lprops t" k] labels_of_lprops [of t] by blast

lemma labels_of_pool_defaults: "labels_of (pool_defaults ps) \<subseteq> labels_of ps \<union> {}"
  using labels_of_ldefaults [of "ldefaults ps (literal defaultPoolingConfig)"
      "literal [(''validate'', JFun ''_validate'')]"]
    labels_of_ldefaults [of ps "literal defaultPoolingConfig"]
  by (auto simp: pool_defaults_def)

lemma labels_replication: "labels (replication_of s) \<subseteq> labels (own s)"
  unfolding replication_of_def by (rule labels_property)

lemma labels_top_level: "labels_of (top_level s) \<subseteq> labels (own s)"
  using labels_of_omit [of "lprops (own s)"] labels_of_lprops [of "own s"]
  by (auto simp: top_level_def)

lemma apart_own: "apart c s \<Longrightarrow> a \<in> labels (own s) \<Longrightarrow> a \<notin> labels c"
  by (auto simp: apart_def)

lemma apart_fresh: "apart c s \<Longrightarrow> fresh s + n \<notin> labels c"
  by (auto simp: apart_def)

lemma apart_advance: "apart c s \<Longrightarrow> apart c (s\<lparr>fresh := fresh s + n\<rparr>)"
  by (auto simp: apart_def)

lemma write_store_apart:
  assumes "apart c s" and "a \<notin> labels c"
    and "\<And>ps. labels_of (f ps) \<subseteq> labels_of ps \<union> L" and "L \<inter> labels c = {}"
  shows "apart c (write_store a f s)"
proof -
  have "modify a f c = c" using assms(2) by (rule modify_id)
  moreover have "labels (modify a f (own s)) \<subseteq> labels (own s) \<union> L"
    using assms(3) by (rule modify_labels)
  ultimately show ?thesis using assms(1,4) by (auto simp: apart_def write_store_def)
qed

lemma assign_apart:
  assumes "apart c s" and "a \<notin> labels c" and "labels v \<inter> labels c = {}"
  shows "apart c (assign a k v s)"
  unfolding assign_def
  using assms(1,2) labels_of_update assms(3) by (rule write_store_apart)

lemma write_store_fresh [simp]: "fresh (write_store a f s) = fresh s"
  by (simp add: write_store_def)

lemma assign_fresh [simp]: "fresh (assign a k v s) = fresh s"
  by (simp add: assign_def)

lemma apart_clone:
  "apart c \<lparr>caller = c, own = cloneDeep_tree c, fresh = bound c + bound c\<rparr>"
proof -
  have "a < bound c" if "a \<in> labels c" for a using that by (rule bound_greater)
  then show ?thesis
    by (fastforce simp: apart_def cloneDeep_tree_def labels_shift)
qed

lemma root_write_store [simp]: "root (write_store a f s) = root s"
  by (simp add: root_def write_store_def)

lemma root_clone: "root \<lparr>caller = c, own = cloneDeep_tree (LObj a ps), fresh = n\<rparr> \<in>
    labels (cloneDeep_tree (LObj a ps))"
  by (simp add: root_def cloneDeep_tree_def)

lemma allocate_apart:
  assumes "apart c s" and "allocate ps s = (obj, s1)" and "labels_of ps \<inter> labels c = {}"
  shows "apart c s1" and "labels obj \<inter> labels c = {}" and "own s1 = own s"
  using assms apart_fresh [of c s 0] by (auto simp: allocate_def apart_def)

lemma constructor_apart:
  assumes "constructor_store a ps = Inr s"
  shows "apart (LObj a ps) s"
proof -
  define c where "c = LObj a ps"
  define s0 where "s0 = \<lparr>caller = c, own = cloneDeep_tree c, fresh = bound c + bound c\<rparr>"
  have s0: "apart c s0" unfolding s0_def by (rule apart_clone)
  have r0: "root s0 \<notin> labels c"
    using apart_own [OF s0, of "root s0"] root_clone [of c a ps "bound c + bound c"]
    by (simp add: s0_def c_def)
  show ?thesis
  proof (cases "lget (lprops (own s0)) ''pool''")
    case (LObj b pps)
    have b: "b \<notin> labels c"
      using apart_own [OF s0, of b] labels_property [of "own s0" "''pool''"] LObj by auto
    define s1 where "s1 = write_store b pool_defaults s0"
    have s1: "apart c s1" unfolding s1_def
      using s0 b labels_of_pool_defaults by (rule write_store_apart) simp
    have v: "labels (lget (lprops (own s1)) ''pool'') \<inter> labels c = {}"
      using labels_property [of "own s1" "''pool''"] s1 by (auto simp: apart_def)
    have "s = assign (root s1) ''pool'' (lget (lprops (own s1)) ''pool'') s1"
      using assms LObj
      by (simp add: constructor_store_def Let_def s0_def [symmetric] c_def [symmetric]
          s1_def [symmetric])
    moreover have "root s1 \<notin> labels c" using r0 by (simp add: s1_def)
    ultimately show ?thesis using assign_apart [OF s1 _ v] by (simp add: c_def)
  next
    case (LVal x)
    obtain obj s1 where al: "allocate (pool_defaults []) s0 = (obj, s1)" by force
    have e: "labels_of (pool_defaults []) \<inter> labels c = {}"
      using labels_of_pool_defaults [of "[]"] by auto
    note f = allocate_apart [OF s0 al e]
    have "s = assign (root s1) ''pool'' obj s1"
      using assms LVal al
      by (simp add: constructor_store_def Let_def s0_def [symmetric] c_def [symmetric]
          split: if_splits)
    moreover have "root s1 \<notin> labels c" using r0 f(3) by (simp add: root_def)
    ultimately show ?thesis using assign_apart [OF f(1) _ f(2)] by (simp add: c_def)
  next
    case (LArr x ts)
    obtain obj s1 where al: "allocate (pool_defaults []) s0 = (obj, s1)" by force
    have e: "labels_of (pool_defaults []) \<inter> labels c = {}"
      using labels_of_pool_defaults [of "[]"] by auto
    note f = allocate_apart [OF s0 al e]
    have "s = assign (root s1) ''pool'' obj s1"
      using assms LArr al
      by (simp add: constructor_store_def Let_def s0_def [symmetric] c_def [symmetric]
          split: if_splits)
    moreover have "root s1 \<notin> labels c" using r0 f(3) by (simp add: root_def)
    ultimately show ?thesis using assign_apart [OF f(1) _ f(2)] by (simp add: c_def)
  qed
qed

lemma replication_property_labels:
  "labels (lget (lprops (replication_of s)) k) \<subseteq> labels (own s)"
  using labels_property [of "replication_of s" k] labels_replication [of s] by blast

lemma normalize_read_apart:
  assumes "apart c s" and "r \<notin> labels c"
  shows "apart c (normalize_read_store r s)"
proof -
  define v where "v = lget (lprops (replication_of s)) ''read''"
  have v: "labels v \<inter> labels c = {}"
    using replication_property_labels [of s "''read''"] assms(1) by (auto simp: apart_def v_def)
  have "labels (LArr (fresh s) [v]) \<inter> labels c = {}"
    using v apart_fresh [OF assms(1), of 0] by simp
  then have "apart c (assign r ''read'' (LArr (fresh s) [v]) (s\<lparr>fresh := fresh s + 1\<rparr>))"
    using assign_apart [OF apart_advance [OF assms(1), of 1] assms(2)] by blast
  then show ?thesis
    using assms(1) by (cases v) (simp_all add: normalize_read_store_def v_def [symmetric])
qed

lemma default_write_apart:
  assumes "apart c s" and "r \<notin> labels c"
  shows "apart c (default_write_store r s)"
proof -
  define v where "v = lget (lprops (replication_of s)) ''write''"
  have t: "labels_of (top_level s) \<inter> labels c = {}"
    using labels_top_level [of s] assms(1) by (auto simp: apart_def)
  have fresh: "apart c (default_write_store r s)" if "\<And>w ws. v \<noteq> LObj w ws"
  proof -
    obtain obj s1 where al: "allocate (ldefaults [] (top_level s)) s = (obj, s1)" by force
    have "labels_of (ldefaults [] (top_level s)) \<inter> labels c = {}"
      using labels_of_ldefaults [of "[]" "top_level s"] t by auto
    note f = allocate_apart [OF assms(1) al this]
    have "default_write_store r s = assign r ''write'' obj s1"
      using that al by (cases v) (auto simp add: default_write_store_def v_def [symmetric])
    then show ?thesis using assign_apart [OF f(1) assms(2) f(2)] by simp
  qed
  show ?thesis
  proof (cases v)
    case (LObj w ws)
    have w: "w \<notin> labels c"
      using replication_property_labels [of s "''write''"] assms(1) LObj
      by (auto simp: apart_def v_def)
    define s1 where "s1 = write_store w (\<lambda>ps. ldefaults ps (top_level s)) s"
    have s1: "apart c s1" unfolding s1_def
      using assms(1) w labels_of_ldefaults t by (rule write_store_apart)
    have "labels (lget (lprops (replication_of s1)) ''write'') \<inter> labels c = {}"
      using replication_property_labels [of s1 "''write''"] s1 by (auto simp: apart_def)
    then have "apart c (assign r ''write'' (lget (lprops (replication_of s1)) ''write'') s1)"
      using assign_apart [OF s1 assms(2)] by blast
    then show ?thesis
      using LObj by (simp add: default_write_store_def v_def [symmetric] Let_def s1_def)
  next
    case (LVal x)
    then show ?thesis using fresh by simp
  next
    case (LArr x ts)
    then show ?thesis using fresh by simp
  qed
qed

lemma default_read_element_apart:
  assumes "apart c s" and "labels t \<inter> labels c = {}"
  shows "apart c (default_read_element s t)"
proof (cases t)
  case (LObj e es)
  have t: "labels_of (top_level s) \<inter> labels c = {}"
    using labels_top_level [of s] assms(1) by (auto simp: apart_def)
  have "e \<notin> labels c" using assms(2) LObj by auto
  with assms(1) have "apart c (write_store e (\<lambda>ps. ldefaults ps (top_level s)) s)"
    using labels_of_ldefaults t by (rule write_store_apart)
  then show ?thesis using LObj by simp
qed (use assms in simp_all)

lemma default_read_elements_apart:
  "apart c s \<Longrightarrow> (\<forall>t \<in> set ts. labels t \<inter> labels c = {}) \<Longrightarrow>
   apart c (foldl default_read_element s ts)"
  by (induction ts arbitrary: s) (simp_all add: default_read_element_apart)

lemma default_read_element_fresh [simp]: "fresh (default_read_element s t) = fresh s"
  by (cases t) simp_all

lemma labels_elements: "t \<in> set (elements v) \<Longrightarrow> labels t \<subseteq> labels v"
  by (cases v) auto

lemma read_results_labels:
  "t \<in> set (read_results src n ts) \<Longrightarrow>
   labels t \<subseteq> (\<Union>u \<in> set ts. labels u) \<union> labels_of src \<union> {k. n \<le> k}"
  using labels_of_ldefaults [of "[]"]
  by (induction src n ts rule: read_results.induct) fastforce+

lemma default_reads_apart:
  assumes "apart c s" and "r \<notin> labels c"
  shows "apart c (default_reads_store r s)"
proof -
  define s1 where
    "s1 = foldl default_read_element s (elements (lget (lprops (replication_of s)) ''read''))"
  define now where "now = elements (lget (lprops (replication_of s1)) ''read'')"
  have "labels t \<inter> labels c = {}"
    if "t \<in> set (elements (lget (lprops (replication_of s)) ''read''))" for t
    using labels_elements [OF that] replication_property_labels [of s "''read''"] assms(1)
    by (auto simp: apart_def)
  then have s1: "apart c s1"
    unfolding s1_def using assms(1) by (intro default_read_elements_apart) auto
  have now: "labels t \<inter> labels c = {}" if "t \<in> set now" for t
    using labels_elements [of t "lget (lprops (replication_of s1)) ''read''"] that
      replication_property_labels [of s1 "''read''"] s1
    by (auto simp: apart_def now_def)
  have t: "labels_of (top_level s1) \<inter> labels c = {}"
    using labels_top_level [of s1] s1 by (auto simp: apart_def)
  have hi: "{k. fresh s1 \<le> k} \<inter> labels c = {}"
    using s1 by (fastforce simp: apart_def)
  have "labels t \<inter> labels c = {}"
    if "t \<in> set (read_results (top_level s1) (fresh s1) now)" for t
    using read_results_labels [OF that] now t hi by blast
  moreover have "fresh s1 + length now \<notin> labels c"
    using apart_fresh [OF s1] .
  ultimately have "labels (LArr (fresh s1 + length now) (read_results (top_level s1) (fresh s1) now))
      \<inter> labels c = {}"
    by auto
  then have "apart c (assign r ''read''
      (LArr (fresh s1 + length now) (read_results (top_level s1) (fresh s1) now))
      (s1\<lparr>fresh := fresh s1 + (length now + 1)\<rparr>))"
    using assign_apart [OF apart_advance [OF s1, of "length now + 1"] assms(2)] by blast
  then show ?thesis
    by (simp add: default_reads_store_def Let_def s1_def [symmetric] now_def [symmetric]
        add.assoc)
qed

lemma init_pools_apart:
  assumes "apart c s"
  shows "apart c (init_pools_store s)"
proof (cases "replication_of s")
  case (LObj r rs)
  have "r \<notin> labels c"
    using labels_replication [of s] assms LObj by (auto simp: apart_def)
  then show ?thesis
    using LObj assms
    by (simp add: init_pools_store_def normalize_read_apart default_write_apart
        default_reads_apart)
qed (use assms in \<open>simp_all add: init_pools_store_def\<close>)

lemma hook_write_apart: "apart c s \<Longrightarrow> apart c (hook_write a k v s)"
  using assign_apart [of c s a "LVal v" k] by (auto simp: hook_write_def apart_def)

lemma store_step_apart: "apart c s \<Longrightarrow> apart c (store_step s t)"
  by (cases "(s, t)" rule: store_step.cases) (simp_all add: init_pools_apart hook_write_apart)

lemma store_run_apart: "apart c s \<Longrightarrow> apart c (store_run s ts)"
  unfolding store_run_def
  by (induction ts arbitrary: s) (simp_all add: store_step_apart)

lemma init_pools_config:
  "replication (config m) = Some r \<Longrightarrow>
   config (fst (init_pools m)) =
     (config m)\<lparr>replication := Some
        \<lparr>write_cfg = JObj (defaults (as_object (write_cfg r)) (props (config m))),
         read_cfg = JArr (map (\<lambda>readConfig. JObj (defaults (as_object readConfig) (props (config m))))
                       (normalize_read (read_cfg r)))\<rparr>\<rparr>"
  by (simp add: init_pools_def Let_def split: sum.splits)

text \<open>
  The store against the state machine: the constructor first, then \<open>initPools\<close> on a
  configuration in which no object is referenced twice.
\<close>

lemma map_map_snd:
  "(\<And>p. p \<in> set ps \<Longrightarrow> f (g (snd p)) = h (snd p)) \<Longrightarrow>
   map (map_prod id f) (map (map_prod id g) ps) = map (map_prod id h) ps"
  by (induction ps) force+

lemma concat_snd_map:
  "concat (map snd (map (map_prod id (\<lambda>t. map F (g t))) ps)) =
   map F (concat (map snd (map (map_prod id g) ps)))"
  by (induction ps) auto

lemma lget_Nil [simp]: "lget [] k = LVal JUndefined"
  by (simp add: lget_def)

lemma own_write_store [simp]: "own (write_store a f s) = modify a f (own s)"
  by (simp add: write_store_def)

lemma own_assign [simp]: "own (assign a k v s) = modify a (AList.update k v) (own s)"
  by (simp add: assign_def)

lemma erase_shift [simp]: "erase (shift d t) = erase t"
proof (induction t)
  case (LObj a ps)
  have "map (map_prod id erase) (map (map_prod id (shift d)) ps) = map (map_prod id erase) ps"
  proof (rule map_map_snd)
    fix p assume p: "p \<in> set ps"
    show "erase (shift d (snd p)) = erase (snd p)"
      using LObj [of p "snd p"] p by (cases p) simp
  qed
  then show ?case by (simp only: shift.simps erase.simps)
qed simp_all

lemma label_list_shift: "label_list (shift d t) = map (\<lambda>a. a + d) (label_list t)"
proof (induction t)
  case (LObj a ps)
  have "map (map_prod id label_list) (map (map_prod id (shift d)) ps) =
      map (map_prod id (\<lambda>t. map (\<lambda>a. a + d) (label_list t))) ps"
  proof (rule map_map_snd)
    fix p assume p: "p \<in> set ps"
    show "label_list (shift d (snd p)) = map (\<lambda>a. a + d) (label_list (snd p))"
      using LObj [of p "snd p"] p by (cases p) simp
  qed
  then show ?case by (simp only: shift.simps label_list.simps concat_snd_map list.map)
next
  case (LArr a ts)
  then show ?case by (simp add: map_concat cong: map_cong)
qed simp

lemma distinct_shift: "distinct (label_list t) \<Longrightarrow> distinct (label_list (shift d t))"
  by (simp add: label_list_shift distinct_map inj_on_def)

lemma shift_undefined [simp]: "shift d t = LVal x \<longleftrightarrow> t = LVal x"
  by (cases t) auto

lemma erase_value: "erase t = JUndefined \<longleftrightarrow> t = LVal JUndefined"
  "erase t = JBool b \<longleftrightarrow> t = LVal (JBool b)"
  by (cases t; auto)+

lemma lget_shift: "lget (map (map_prod id (shift d)) ps) k = shift d (lget ps k)"
  by (induction ps) (auto simp: lget_def)

lemma get_erase: "get (map (map_prod id erase) ps) k = erase (lget ps k)"
  by (induction ps) (auto simp: lget_def get_def)

lemma lget_omit: "k \<noteq> ''replication'' \<Longrightarrow> lget (omit_replication ps) k = lget ps k"
  by (induction ps) (auto simp: lget_def omit_replication_def)

lemma erase_update:
  "map (map_prod id erase) (AList.update k v ps) = AList.update k (erase v) (map (map_prod id erase) ps)"
  by (induction ps) auto

lemma omit_update:
  "k \<noteq> ''replication'' \<Longrightarrow>
   omit_replication (AList.update k v ps) = AList.update k v (omit_replication ps)"
  by (induction ps) (auto simp: omit_replication_def)

lemma lget_update: "lget (AList.update k v ps) k' = (if k' = k then v else lget ps k')"
  by (simp add: lget_def update_conv')

lemma erase_lassign:
  "map (map_prod id erase) (lassign_default ps p) =
   assign_default (map (map_prod id erase) ps) (map_prod id erase p)"
  by (cases p) (simp add: erase_update get_erase erase_value)

lemma erase_ldefaults:
  "map (map_prod id erase) (ldefaults ps src) =
   defaults (map (map_prod id erase) ps) (map (map_prod id erase) src)"
  unfolding ldefaults_def defaults_def
  by (induction src arbitrary: ps) (simp_all add: erase_lassign)

lemma erase_literal [simp]: "map (map_prod id erase) (literal l) = l"
  by (induction l) (auto simp: literal_def)

lemma erase_pool_defaults:
  "map (map_prod id erase) (pool_defaults ps) =
   defaults (defaults (map (map_prod id erase) ps) defaultPoolingConfig)
     [(''validate'', JFun ''_validate'')]"
  by (simp add: pool_defaults_def erase_ldefaults)

lemma modify_entries:
  fixes ps :: "(string \<times> ltree) list"
  assumes "map_of ps k = Some (LObj b pps)"
    and "distinct (concat (map snd (map (map_prod id label_list) ps)))"
  shows "map (map_prod id (modify b f)) ps = AList.update k (LObj b (f pps)) ps"
  using assms
proof (induction ps)
  case Nil
  then show ?case by simp
next
  case (Cons p ps)
  obtain k' u where p: "p = (k', u)" by (cases p)
  show ?case
  proof (cases "k' = k")
    case True
    then have u: "u = LObj b pps" using Cons.prems(1) p by simp
    have "b \<notin> labels_of ps"
      using Cons.prems(2) unfolding p u by (auto simp: labels_of_def labels_def)
    then have "map (map_prod id (modify b f)) ps = ps"
      by (intro map_idI) (auto simp: labels_of_def modify_id)
    then show ?thesis using True p u by (simp add: id_def)
  next
    case False
    then have m: "map_of ps k = Some (LObj b pps)" using Cons.prems(1) p by simp
    then have "b \<in> labels_of ps"
      using labels_of_mem [of k "LObj b pps" ps] by (auto dest: map_of_SomeD)
    then have "b \<notin> labels u"
      using Cons.prems(2) unfolding p by (auto simp: labels_of_def labels_def)
    then have "modify b f u = u" by (rule modify_id)
    moreover have "distinct (concat (map snd (map (map_prod id label_list) ps)))"
      using Cons.prems(2) by simp
    then have "map (map_prod id (modify b f)) ps = AList.update k (LObj b (f pps)) ps"
      by (rule Cons.IH [OF m])
    ultimately show ?thesis using False p by (simp add: id_def)
  qed
qed

lemma modify_child:
  assumes "distinct (label_list (LObj a ps))" and "lget ps k = LObj b pps"
  shows "modify b f (LObj a ps) = LObj a (AList.update k (LObj b (f pps)) ps)"
proof -
  have m: "map_of ps k = Some (LObj b pps)"
    using assms(2) by (auto simp: lget_def split: option.splits)
  then have "b \<in> labels_of ps"
    using labels_of_mem [of k "LObj b pps" ps] by (auto dest: map_of_SomeD)
  then have "b \<noteq> a" using assms(1) by (auto simp: labels_of_def labels_def)
  then show ?thesis using modify_entries [OF m] assms(1) by simp
qed

lemma plain_lget: "plain (LObj a ps) \<Longrightarrow> plain (lget ps k)"
  by (induction ps) (auto simp: lget_def)

lemma plain_shift [simp]: "plain (shift d t) = plain t"
proof (induction t)
  case (LObj a ps)
  have "map (map_prod id plain) (map (map_prod id (shift d)) ps) = map (map_prod id plain) ps"
  proof (rule map_map_snd)
    fix p assume p: "p \<in> set ps"
    show "plain (shift d (snd p)) = plain (snd p)"
      using LObj [of p "snd p"] p by (cases p) simp
  qed
  then show ?case by (simp only: shift.simps plain.simps)
next
  case (LArr a ts)
  then show ?case by (simp add: comp_def cong: map_cong)
qed simp

lemma config_of_update:
  "config_of (LObj a (AList.update ''pool'' v ps)) =
   (config_of (LObj a ps))\<lparr>props := AList.update ''pool'' (erase v) (props (config_of (LObj a ps)))\<rparr>"
  by (simp add: config_of_def omit_update erase_update lget_update)

lemma omit_shift:
  "omit_replication (map (map_prod id (shift d)) ps) =
   map (map_prod id (shift d)) (omit_replication ps)"
  by (induction ps) (auto simp: omit_replication_def)

lemma erase_shift_props:
  "map (map_prod id erase) (map (map_prod id (shift d)) ps) = map (map_prod id erase) ps"
  by (induction ps) auto

lemma erase_shift_comp:
  "map (map_prod id erase \<circ> map_prod id (shift d)) ps = map (map_prod id erase) ps"
  by (induction ps) auto

lemma erase_lget_shift: "erase (lget (lprops (shift d t)) k) = erase (lget (lprops t) k)"
  by (cases t) (simp_all add: lget_shift)

lemma config_of_shift: "config_of (shift d (LObj a ps)) = config_of (LObj a ps)"
proof -
  have "props (config_of (shift d (LObj a ps))) = props (config_of (LObj a ps))"
    using erase_shift_props [of d "omit_replication ps"]
    by (simp only: config_of_def shift.simps lprops.simps omit_shift configuration.simps)
  moreover have "replication (config_of (shift d (LObj a ps))) = replication (config_of (LObj a ps))"
    using erase_lget_shift [of d "lget ps ''replication''"]
    by (cases "lget ps ''replication''") (simp_all add: config_of_def lget_shift)
  ultimately show ?thesis by simp
qed

lemma constructor_refines:
  assumes "distinct (label_list (LObj a ps))" and "plain (LObj a ps)"
  shows "map_sum id (\<lambda>s. config_of (own s)) (constructor_store a ps) =
         map_sum id config (constructor dv valid (config_of (LObj a ps)) v)"
proof -
  define d where "d = bound (LObj a ps)"
  define qs where "qs = map (map_prod id (shift d)) ps"
  define s0 where "s0 = \<lparr>caller = LObj a ps, own = LObj (a + d) qs, fresh = d + d\<rparr>"
  have cl: "cloneDeep_tree (LObj a ps) = LObj (a + d) qs"
    by (simp add: cloneDeep_tree_def d_def qs_def)
  have dq: "distinct (label_list (LObj (a + d) qs))"
    using distinct_shift [OF assms(1), of d] by (simp add: qs_def)
  have cq: "config_of (LObj (a + d) qs) = config_of (LObj a ps)"
    using config_of_shift [of d a ps] by (simp add: qs_def)
  have pv: "get (props (config_of (LObj a ps))) ''pool'' = erase (lget ps ''pool'')"
    by (simp add: config_of_def get_erase lget_omit)
  have pq: "lget qs ''pool'' = shift d (lget ps ''pool'')"
    by (simp add: qs_def lget_shift)
  show ?thesis
  proof (cases "lget ps ''pool''")
    case (LObj b0 pps0)
    define b where "b = b0 + d"
    define pps where "pps = map (map_prod id (shift d)) pps0"
    have lq: "lget qs ''pool'' = LObj b pps" using pq LObj by (simp add: b_def pps_def)
    define V where "V = LObj b (pool_defaults pps)"
    have o1: "modify b pool_defaults (own s0) = LObj (a + d) (AList.update ''pool'' V qs)"
      using modify_child [OF dq lq] by (simp add: s0_def V_def)
    have "own (assign (a + d) ''pool'' V (write_store b pool_defaults s0)) =
        LObj (a + d) (AList.update ''pool'' V qs)"
      by (simp add: o1)
    then have "config_of (own (assign (a + d) ''pool'' V (write_store b pool_defaults s0))) =
        (config_of (LObj a ps))\<lparr>props := AList.update ''pool'' (erase V)
           (props (config_of (LObj a ps)))\<rparr>"
      by (simp add: config_of_update cq)
    moreover have "erase V = JObj (defaults (defaults (map (map_prod id erase) pps0)
        defaultPoolingConfig) [(''validate'', JFun ''_validate'')])"
      by (simp add: V_def erase_pool_defaults pps_def erase_shift_comp)
    moreover have "own s0 = LObj (a + d) qs" by (simp add: s0_def)
    ultimately show ?thesis
      using LObj lq o1
      by (simp add: constructor_store_def constructor_def cloneDeep_def Let_def cl pv
          s0_def [symmetric] d_def [symmetric] root_def lget_update V_def [symmetric])
  next
    case (LVal x)
    have x: "as_object x = []"
      using assms(2) plain_lget [of a ps "''pool''"] LVal by (cases x) simp_all
    have lq: "lget qs ''pool'' = LVal x" using pq LVal by simp
    define V where "V = LObj (d + d) (pool_defaults [])"
    have "config_of (LObj (a + d) (AList.update ''pool'' V qs)) =
        (config_of (LObj a ps))\<lparr>props := AList.update ''pool'' (erase V)
           (props (config_of (LObj a ps)))\<rparr>"
      by (simp add: config_of_update cq)
    moreover have "erase V = JObj (defaults (defaults [] defaultPoolingConfig)
        [(''validate'', JFun ''_validate'')])"
      by (simp add: V_def erase_pool_defaults)
    ultimately show ?thesis
      using LVal lq x
      by (simp add: constructor_store_def constructor_def cloneDeep_def Let_def cl pv
          d_def [symmetric] root_def allocate_def assign_def write_store_def V_def [symmetric])
  next
    case (LArr x ts)
    have lq: "lget qs ''pool'' = LArr (x + d) (map (shift d) ts)" using pq LArr by simp
    define V where "V = LObj (d + d) (pool_defaults [])"
    have "config_of (LObj (a + d) (AList.update ''pool'' V qs)) =
        (config_of (LObj a ps))\<lparr>props := AList.update ''pool'' (erase V)
           (props (config_of (LObj a ps)))\<rparr>"
      by (simp add: config_of_update cq)
    moreover have "erase V = JObj (defaults (defaults [] defaultPoolingConfig)
        [(''validate'', JFun ''_validate'')])"
      by (simp add: V_def erase_pool_defaults)
    ultimately show ?thesis
      using LArr lq
      by (simp add: constructor_store_def constructor_def cloneDeep_def Let_def cl pv
          d_def [symmetric] root_def allocate_def assign_def write_store_def V_def [symmetric])
  qed
qed

lemma rest_update [simp]: "rest k (AList.update k v ps) = rest k ps"
  by (induction ps) auto

lemma labels_map_of: "map_of ps k = Some u \<Longrightarrow> labels u \<subseteq> labels_of ps"
  using labels_of_mem [of k u ps] by (auto dest: map_of_SomeD)

lemma labels_of_rest: "labels_of (rest k ps) \<subseteq> labels_of ps"
  by (induction ps) (auto split: if_splits)

lemma labels_of_rest_update:
  "k' \<noteq> k \<Longrightarrow> labels_of (rest k' (AList.update k v ps)) \<subseteq> labels_of (rest k' ps) \<union> labels v"
proof (induction ps)
  case Nil
  then show ?case by simp
next
  case (Cons p ps)
  obtain k1 u1 where p: "p = (k1, u1)" by (cases p)
  show ?case
    using Cons labels_of_update [of k v ps] unfolding p by (auto split: if_splits)
qed

lemma labels_lget_rest: "k' \<noteq> k \<Longrightarrow> labels (lget ps k') \<subseteq> labels_of (rest k ps)"
proof (induction ps)
  case Nil
  then show ?case by simp
next
  case (Cons p ps)
  obtain k1 u1 where p: "p = (k1, u1)" by (cases p)
  have "labels (lget ps k') \<subseteq> labels_of ps" by (rule labels_lget)
  then show ?case
    using Cons unfolding p by (auto simp: lget_def split: option.splits)
qed

lemma labels_of_omit_rest: "labels_of (omit_replication ps) \<subseteq> labels_of (rest ''replication'' ps)"
proof (induction ps)
  case Nil
  then show ?case by (simp add: omit_replication_def)
next
  case (Cons p ps)
  obtain k1 u1 where p: "p = (k1, u1)" by (cases p)
  show ?case
    using Cons labels_of_omit [of ps] unfolding p by (auto simp: omit_replication_def)
qed

lemma omit_update_replication [simp]:
  "omit_replication (AList.update ''replication'' v ps) = omit_replication ps"
  by (induction ps) (auto simp: omit_replication_def)

lemma distinct_rest:
  fixes ps :: "(string \<times> ltree) list"
  assumes "distinct (concat (map snd (map (map_prod id label_list) ps)))"
    and "map_of ps k = Some u"
  shows "labels u \<inter> labels_of (rest k ps) = {} \<and> distinct (label_list u)"
  using assms
proof (induction ps)
  case Nil
  then show ?case by simp
next
  case (Cons p ps)
  obtain k' u' where p: "p = (k', u')" by (cases p)
  have d: "distinct (concat (map snd (map (map_prod id label_list) ps)))"
    and x: "labels u' \<inter> labels_of ps = {}" and du: "distinct (label_list u')"
    using Cons.prems(1) unfolding p by (auto simp: labels_of_def labels_def)
  show ?case
  proof (cases "k' = k")
    case True
    then show ?thesis using Cons.prems(2) x du p by simp
  next
    case False
    then have m: "map_of ps k = Some u" using Cons.prems(2) p by simp
    have "labels u \<subseteq> labels_of ps" using m by (rule labels_map_of)
    then show ?thesis using Cons.IH [OF d m] x False p by auto
  qed
qed

lemma modify_entry:
  fixes ps :: "(string \<times> ltree) list"
  assumes "map_of ps k = Some u" and "b \<notin> labels_of (rest k ps)"
  shows "map (map_prod id (modify b f)) ps = AList.update k (modify b f u) ps"
  using assms
proof (induction ps)
  case Nil
  then show ?case by simp
next
  case (Cons p ps)
  obtain k' u' where p: "p = (k', u')" by (cases p)
  show ?case
  proof (cases "k' = k")
    case True
    then have "b \<notin> labels_of ps" using Cons.prems(2) p by simp
    then have "map (map_prod id (modify b f)) ps = ps"
      by (intro map_idI) (auto simp: labels_of_def modify_id)
    then show ?thesis using True p Cons.prems(1) by (simp add: id_def)
  next
    case False
    then have m: "map_of ps k = Some u" using Cons.prems(1) p by simp
    have n: "b \<notin> labels u'" "b \<notin> labels_of (rest k ps)"
      using Cons.prems(2) False p by auto
    have "modify b f u' = u'" using n(1) by (rule modify_id)
    moreover have "map (map_prod id (modify b f)) ps = AList.update k (modify b f u) ps"
      using m n(2) by (rule Cons.IH)
    ultimately show ?thesis using False p by (simp add: id_def)
  qed
qed

lemma modify_in:
  assumes "b \<noteq> a" and "lget ps k = LObj x y \<or> lget ps k = LArr x z" and "b \<notin> labels_of (rest k ps)"
  shows "modify b f (LObj a ps) = LObj a (AList.update k (modify b f (lget ps k)) ps)"
proof -
  have "map_of ps k = Some (lget ps k)"
    using assms(2) by (auto simp: lget_def split: option.splits)
  from modify_entry [OF this assms(3)] assms(1) show ?thesis by simp
qed

lemma lget_eq_map_of:
  "lget ps k = LObj x y \<Longrightarrow> map_of ps k = Some (LObj x y)"
  "lget ps k = LArr x z \<Longrightarrow> map_of ps k = Some (LArr x z)"
  by (auto simp: lget_def split: option.splits)

lemma write_replication:
  assumes "own s = LObj A (AList.update ''replication'' (LObj r rs) qs)"
    and "r \<noteq> A" and "r \<notin> labels_of (rest ''replication'' qs)"
  shows "own (write_store r f s) = LObj A (AList.update ''replication'' (LObj r (f rs)) qs)"
proof -
  have "modify r f (LObj A (AList.update ''replication'' (LObj r rs) qs)) =
      LObj A (AList.update ''replication''
        (modify r f (lget (AList.update ''replication'' (LObj r rs) qs) ''replication''))
        (AList.update ''replication'' (LObj r rs) qs))"
    using assms(2,3) by (intro modify_in [where x = r and y = rs]) (simp_all add: lget_update)
  then show ?thesis by (simp add: assms(1) lget_update)
qed

lemma assign_replication:
  assumes "own s = LObj A (AList.update ''replication'' (LObj r rs) qs)"
    and "r \<noteq> A" and "r \<notin> labels_of (rest ''replication'' qs)"
  shows "own (assign r k v s) = LObj A (AList.update ''replication'' (LObj r (AList.update k v rs)) qs)"
  unfolding assign_def using assms by (rule write_replication)

lemma write_target:
  assumes "own s = LObj A (AList.update ''replication'' (LObj r rs) qs)"
    and "x \<noteq> A" and "x \<notin> labels_of (rest ''replication'' qs)" and "x \<noteq> r"
    and "lget rs k = LObj y ys \<or> lget rs k = LArr y zs" and "x \<notin> labels_of (rest k rs)"
  shows "own (write_store x f s) =
     LObj A (AList.update ''replication'' (LObj r (AList.update k (modify x f (lget rs k)) rs)) qs)"
proof -
  have "modify x f (LObj A (AList.update ''replication'' (LObj r rs) qs)) =
      LObj A (AList.update ''replication''
        (modify x f (lget (AList.update ''replication'' (LObj r rs) qs) ''replication''))
        (AList.update ''replication'' (LObj r rs) qs))"
    using assms(2,3) by (intro modify_in [where x = r and y = rs]) (simp_all add: lget_update)
  moreover have "modify x f (LObj r rs) = LObj r (AList.update k (modify x f (lget rs k)) rs)"
    using assms(4,5,6) by (intro modify_in) auto
  ultimately show ?thesis by (simp add: assms(1) lget_update)
qed

lemma top_level_shape:
  "own s = LObj A (AList.update ''replication'' v qs) \<Longrightarrow> top_level s = omit_replication qs"
  by (simp add: top_level_def)

lemma labels_complete: "labels (complete src t) \<subseteq> labels t \<union> labels_of src"
  using labels_of_ldefaults [of _ src] by (cases t) auto

lemma reads_fold:
  assumes "own s = LObj A (AList.update ''replication'' (LObj r rs) qs)"
    and "lget rs ''read'' = LArr x (pre @ ts)"
    and "A \<notin> (\<Union>t \<in> set ts. labels t)" and "r \<notin> (\<Union>t \<in> set ts. labels t)"
    and "(\<Union>t \<in> set ts. labels t) \<inter> labels_of (rest ''replication'' qs) = {}"
    and "(\<Union>t \<in> set ts. labels t) \<inter> labels_of (rest ''read'' rs) = {}"
    and "(\<Union>t \<in> set ts. labels t) \<inter> (\<Union>t \<in> set pre. labels t) = {}"
    and "distinct (concat (map label_list ts))"
  shows "own (foldl default_read_element s ts) =
     LObj A (AList.update ''replication''
       (LObj r (AList.update ''read'' (LArr x (pre @ map (complete (omit_replication qs)) ts)) rs)) qs)"
  using assms
proof (induction ts arbitrary: s pre rs)
  case Nil
  have "AList.update ''read'' (LArr x pre) rs = rs"
    using Nil.prems(2) by (intro update_triv) (simp add: lget_eq_map_of)
  then show ?case using Nil.prems(1) by simp
next
  case (Cons t ts)
  define top where "top = omit_replication qs"
  have tl: "top_level s = top" using Cons.prems(1) by (simp add: top_level_shape top_def)
  have d: "distinct (concat (map label_list ts))"
    and tt: "labels t \<inter> (\<Union>u \<in> set ts. labels u) = {}"
    using Cons.prems(8) by (auto simp: labels_def)
  have sub: "(\<Union>u \<in> set ts. labels u) \<subseteq> (\<Union>u \<in> set (t # ts). labels u)" by auto
  define s' where "s' = default_read_element s t"
  define rs' where "rs' = AList.update ''read'' (LArr x ((pre @ [complete top t]) @ ts)) rs"
  have own': "own s' = LObj A (AList.update ''replication'' (LObj r rs') qs)"
  proof (cases t)
    case (LObj e es)
    have e: "e \<in> (\<Union>u \<in> set (t # ts). labels u)" using LObj by simp
    have mp: "map (modify e (\<lambda>ps. ldefaults ps top)) pre = pre"
      using e Cons.prems(7) by (intro map_idI modify_id) blast
    have mt: "map (modify e (\<lambda>ps. ldefaults ps top)) ts = ts"
      using tt LObj by (intro map_idI modify_id) auto
    have "own (write_store e (\<lambda>ps. ldefaults ps top) s) =
        LObj A (AList.update ''replication''
          (LObj r (AList.update ''read''
             (modify e (\<lambda>ps. ldefaults ps top) (lget rs ''read'')) rs)) qs)"
      using Cons.prems(1) _ _ _ _ _
    proof (rule write_target)
      show "e \<noteq> A" using e Cons.prems(3) by blast
      show "e \<noteq> r" using e Cons.prems(4) by blast
      show "e \<notin> labels_of (rest ''replication'' qs)" using e Cons.prems(5) by blast
      show "e \<notin> labels_of (rest ''read'' rs)" using e Cons.prems(6) by blast
      show "lget rs ''read'' = LObj x [] \<or> lget rs ''read'' = LArr x (pre @ t # ts)"
        using Cons.prems(2) by simp
    qed
    then show ?thesis
      using LObj by (simp add: s'_def tl rs'_def mp mt Cons.prems(2))
  next
    case (LVal v)
    have "AList.update ''read'' (LArr x (pre @ t # ts)) rs = rs"
      using Cons.prems(2) by (intro update_triv) (simp add: lget_eq_map_of)
    then show ?thesis using LVal Cons.prems(1) by (simp add: s'_def rs'_def)
  next
    case (LArr y zs)
    have "AList.update ''read'' (LArr x (pre @ t # ts)) rs = rs"
      using Cons.prems(2) by (intro update_triv) (simp add: lget_eq_map_of)
    then show ?thesis using LArr Cons.prems(1) by (simp add: s'_def rs'_def)
  qed
  have "own (foldl default_read_element s' ts) =
     LObj A (AList.update ''replication''
       (LObj r (AList.update ''read''
          (LArr x ((pre @ [complete top t]) @ map (complete (omit_replication qs)) ts)) rs')) qs)"
    using own' _ _ _ _ _ _ d
  proof (rule Cons.IH)
    show "lget rs' ''read'' = LArr x ((pre @ [complete top t]) @ ts)"
      by (simp add: rs'_def lget_update)
    show "A \<notin> (\<Union>t \<in> set ts. labels t)" using Cons.prems(3) by auto
    show "r \<notin> (\<Union>t \<in> set ts. labels t)" using Cons.prems(4) by auto
    show "(\<Union>t \<in> set ts. labels t) \<inter> labels_of (rest ''replication'' qs) = {}"
      using Cons.prems(5) by auto
    show "(\<Union>t \<in> set ts. labels t) \<inter> labels_of (rest ''read'' rs') = {}"
      using Cons.prems(6) by (auto simp: rs'_def)
    have "labels_of top \<subseteq> labels_of (rest ''replication'' qs)"
      unfolding top_def by (rule labels_of_omit_rest)
    then have "(\<Union>u \<in> set ts. labels u) \<inter> labels (complete top t) = {}"
      using labels_complete [of top t] tt Cons.prems(5) by fastforce
    then show "(\<Union>t \<in> set ts. labels t) \<inter> (\<Union>t \<in> set (pre @ [complete top t]). labels t) = {}"
      using Cons.prems(7) by auto
  qed
  then show ?case by (simp add: s'_def rs'_def top_def)
qed

lemma foldl_read_fresh [simp]: "fresh (foldl default_read_element s ts) = fresh s"
  by (induction ts arbitrary: s) simp_all

lemma plain_elements: "plain v \<Longrightarrow> t \<in> set (elements v) \<Longrightarrow> plain t"
  by (cases v) (auto simp: list_all_iff)

lemma as_object_plain:
  assumes "plain t" and "\<And>e es. t \<noteq> LObj e es"
  shows "as_object (erase t) = []"
proof (cases t)
  case (LVal v)
  then show ?thesis using assms(1) by (cases v) simp_all
next
  case (LObj e es)
  then show ?thesis using assms(2) by simp
next
  case (LArr y zs)
  then show ?thesis by simp
qed

lemma erase_read_results:
  assumes "\<forall>t \<in> set ts. plain t" and "P = map (map_prod id erase) src"
  shows "map erase (read_results src n (map (complete src) ts)) =
     map (\<lambda>readConfig. JObj (defaults (as_object readConfig) P)) (map erase ts)"
  using assms(1)
proof (induction ts arbitrary: n)
  case Nil
  then show ?case by simp
next
  case (Cons t ts)
  have p: "plain t" and ps: "\<forall>t \<in> set ts. plain t" using Cons.prems by simp_all
  note IH = Cons.IH [OF ps]
  have e: "map (map_prod id erase) (ldefaults es src) = defaults (map (map_prod id erase) es) P" for es
    unfolding assms(2) by (rule erase_ldefaults)
  have e0: "map (map_prod id erase) (ldefaults [] src) = defaults [] P"
    using e [of "[]"] by simp
  show ?case
  proof (cases t)
    case (LObj e' es)
    then show ?thesis using IH [of n] e [of es] by simp
  next
    case (LVal v)
    then show ?thesis
      using IH [of "n + 1"] as_object_plain [OF p] e0 by simp
  next
    case (LArr y zs)
    then show ?thesis using IH [of "n + 1"] e0 by simp
  qed
qed

lemma normalize_read_erase:
  assumes "plain v"
  shows "normalize_read (erase v) =
     map erase (elements (case v of LArr x ts \<Rightarrow> v | _ \<Rightarrow> LArr n [v]))"
proof (cases v)
  case (LVal p)
  then show ?thesis using assms by (cases p) (simp_all add: normalize_read_def)
qed (simp_all add: normalize_read_def)

lemma init_pools_refines:
  assumes o: "own s = LObj A qs"
    and D: "distinct (label_list (LObj A qs))"
    and P: "plain (LObj A qs)"
    and F: "\<forall>a \<in> labels (LObj A qs). a < fresh s"
    and c: "config m = config_of (LObj A qs)"
  shows "config_of (own (init_pools_store s)) = config (fst (init_pools m))"
proof -
  have none: ?thesis if "\<And>r rs. lget qs ''replication'' \<noteq> LObj r rs"
  proof -
    have "replication (config m) = None"
      using c that by (cases "lget qs ''replication''") (auto simp: config_of_def)
    then have "config (fst (init_pools m)) = config m"
      by (simp add: init_pools_def Let_def split: sum.splits)
    moreover have "init_pools_store s = s"
      using o that
      by (cases "lget qs ''replication''") (auto simp: init_pools_store_def replication_of_def)
    ultimately show ?thesis using o c by simp
  qed
  show ?thesis
  proof (cases "lget qs ''replication''")
    case (LVal x)
    then show ?thesis using none by simp
  next
    case (LArr x ts)
    then show ?thesis using none by simp
  next
    case (LObj r rs)
    note R = LObj
    define Q where "Q = labels_of (rest ''replication'' qs)"
    define v where "v = lget rs ''read''"
    define W where "W = lget rs ''write''"
    define top where "top = omit_replication qs"
    define n0 where "n0 = fresh s"
    have m0: "map_of qs ''replication'' = Some (LObj r rs)" using R by (rule lget_eq_map_of(1))
    have dq: "distinct (concat (map snd (map (map_prod id label_list) qs)))"
      and Aq: "A \<notin> labels_of qs"
      using D by (auto simp: labels_of_def labels_def)
    from distinct_rest [OF dq m0]
    have rQ0: "labels (LObj r rs) \<inter> Q = {}" and dR: "distinct (label_list (LObj r rs))"
      unfolding Q_def by blast+
    have rQ: "r \<notin> labels_of (rest ''replication'' qs)" and rsQ: "labels_of rs \<inter> Q = {}"
      using rQ0 by (auto simp: Q_def)
    have drs: "distinct (concat (map snd (map (map_prod id label_list) rs)))"
      and rrs: "r \<notin> labels_of rs"
      using dR by (auto simp: labels_of_def labels_def)
    have Rq: "labels (LObj r rs) \<subseteq> labels_of qs" using m0 by (rule labels_map_of)
    have rA: "r \<noteq> A" and Ars: "A \<notin> labels_of rs" using Rq Aq by auto
    have lt: "a < n0" if "a \<in> labels_of rs" for a using F Rq that by (auto simp: n0_def)
    have qs0: "AList.update ''replication'' (LObj r rs) qs = qs" using m0 by (rule update_triv)
    have own0: "own s = LObj A (AList.update ''replication'' (LObj r rs) qs)"
      using o qs0 by simp
    have vl: "labels v \<subseteq> labels_of rs" and Wl: "labels W \<subseteq> labels_of rs"
      unfolding v_def W_def by (rule labels_lget)+
    have vW: "labels v \<subseteq> labels_of (rest ''write'' rs)"
      unfolding v_def by (rule labels_lget_rest) simp
    have Wv: "labels W \<subseteq> labels_of (rest ''read'' rs)"
      unfolding W_def by (rule labels_lget_rest) simp
    have vd: "labels v \<inter> labels_of (rest ''read'' rs) = {} \<and> distinct (label_list v)"
    proof (cases "map_of rs ''read''")
      case None
      then have "v = LVal JUndefined" by (simp add: v_def lget_def)
      then show ?thesis by simp
    next
      case (Some u)
      then have "v = u" by (simp add: v_def lget_def)
      with distinct_rest [OF drs Some] show ?thesis by simp
    qed
    have Wd: "labels W \<inter> labels_of (rest ''write'' rs) = {}"
    proof (cases "map_of rs ''write''")
      case None
      then have "W = LVal JUndefined" by (simp add: W_def lget_def)
      then show ?thesis by simp
    next
      case (Some u)
      then have "W = u" by (simp add: W_def lget_def)
      with distinct_rest [OF drs Some] show ?thesis by simp
    qed
    have pR: "plain (LObj r rs)" using plain_lget [OF P, of "''replication''"] R by simp
    have pv: "plain v" and pW: "plain W" using plain_lget [OF pR] by (simp_all add: v_def W_def)
    have rep0: "replication_of s = LObj r rs" using o R by (simp add: replication_of_def)

    define Arr where "Arr = (case v of LArr x ts \<Rightarrow> v | _ \<Rightarrow> LArr n0 [v])"
    define f1 where "f1 = (case v of LArr x ts \<Rightarrow> n0 | _ \<Rightarrow> n0 + 1)"
    define x1 where "x1 = address Arr"
    define ts1 where "ts1 = elements Arr"
    define s1 where "s1 = normalize_read_store r s"
    define rs1 where "rs1 = AList.update ''read'' Arr rs"
    have ArrE: "Arr = LArr x1 ts1" by (cases v) (simp_all add: Arr_def x1_def ts1_def)
    have ArrL: "labels Arr \<subseteq> labels v \<union> {n0}" by (cases v) (auto simp: Arr_def)
    have L: "(\<Union>t \<in> set ts1. labels t) \<subseteq> labels v" by (cases v) (auto simp: Arr_def ts1_def)
    have dts: "distinct (concat (map label_list ts1))"
      using vd by (cases v) (auto simp: Arr_def ts1_def)
    have pts: "\<forall>t \<in> set ts1. plain t"
      using pv by (cases v) (auto simp: Arr_def ts1_def list_all_iff)
    have nr: "normalize_read (erase v) = map erase ts1"
      using normalize_read_erase [OF pv, of n0] by (simp add: ts1_def Arr_def)
    have f1: "n0 \<le> f1" by (cases v) (simp_all add: f1_def)
    have assign1: "own (assign r ''read'' (LArr n0 [v]) (s\<lparr>fresh := n0 + 1\<rparr>)) =
        LObj A (AList.update ''replication''
          (LObj r (AList.update ''read'' (LArr n0 [v]) rs)) qs)"
      by (rule assign_replication) (use own0 rA rQ in simp_all)
    have s1: "own s1 = LObj A (AList.update ''replication'' (LObj r rs1) qs)"
      and fs1: "fresh s1 = f1"
    proof -
      have "own s1 = LObj A (AList.update ''replication'' (LObj r rs1) qs) \<and> fresh s1 = f1"
      proof (cases v)
        case (LArr x ts)
        have "map_of rs ''read'' = Some v"
          using LArr by (intro lget_eq_map_of(2) [of rs "''read''" x ts, folded LArr]) (simp add: v_def)
        then have "AList.update ''read'' v rs = rs" by (rule update_triv)
        then show ?thesis
          using LArr own0 rep0
          by (simp add: s1_def normalize_read_store_def v_def [symmetric] rs1_def Arr_def
              f1_def n0_def)
      next
        case (LVal p)
        then show ?thesis
          using assign1 rep0
          by (simp add: s1_def normalize_read_store_def v_def [symmetric] rs1_def Arr_def
              f1_def n0_def)
      next
        case (LObj e es)
        then show ?thesis
          using assign1 rep0
          by (simp add: s1_def normalize_read_store_def v_def [symmetric] rs1_def Arr_def
              f1_def n0_def)
      qed
      then show "own s1 = LObj A (AList.update ''replication'' (LObj r rs1) qs)"
        and "fresh s1 = f1" by blast+
    qed

    define W' where
      "W' = (case W of LObj w ws \<Rightarrow> LObj w (ldefaults ws top) | _ \<Rightarrow> LObj f1 (ldefaults [] top))"
    define f2 where "f2 = (case W of LObj w ws \<Rightarrow> f1 | _ \<Rightarrow> f1 + 1)"
    define s2 where "s2 = default_write_store r s1"
    define rs2 where "rs2 = AList.update ''write'' W' rs1"
    have rep1: "replication_of s1 = LObj r rs1"
      using s1 by (simp add: replication_of_def lget_update)
    have top1: "top_level s1 = top" using s1 by (simp add: top_level_shape top_def)
    have W1: "lget rs1 ''write'' = W" by (simp add: rs1_def lget_update W_def)
    have topQ: "labels_of top \<subseteq> Q" unfolding top_def Q_def by (rule labels_of_omit_rest)
    have W'l: "labels W' \<subseteq> labels W \<union> Q \<union> {f1}"
    proof -
      have "labels_of (ldefaults ps top) \<subseteq> labels_of ps \<union> Q" for ps
        using labels_of_ldefaults [of ps top] topQ by blast
      from this [of "[]"] this show ?thesis by (cases W) (fastforce simp: W'_def)+
    qed
    have eW': "erase W' = JObj (defaults (as_object (erase W)) (map (map_prod id erase) top))"
      using as_object_plain [OF pW] by (cases W) (simp_all add: W'_def erase_ldefaults)
    have f2: "n0 \<le> f2" using f1 by (cases W) (simp_all add: f2_def)
    have assign2: "own (assign r ''write'' W' (s1\<lparr>fresh := f1 + 1\<rparr>)) =
        LObj A (AList.update ''replication'' (LObj r rs2) qs)"
      unfolding rs2_def by (rule assign_replication) (use s1 rA rQ in simp_all)
    have s2: "own s2 = LObj A (AList.update ''replication'' (LObj r rs2) qs)"
      and fs2: "fresh s2 = f2"
    proof -
      have "own s2 = LObj A (AList.update ''replication'' (LObj r rs2) qs) \<and> fresh s2 = f2"
      proof (cases W)
        case (LObj w ws)
        define sw where "sw = write_store w (\<lambda>ps. ldefaults ps top) s1"
        have w: "w \<in> labels_of rs" using Wl LObj by auto
        have "own sw =
            LObj A (AList.update ''replication''
              (LObj r (AList.update ''write''
                 (modify w (\<lambda>ps. ldefaults ps top) (lget rs1 ''write'')) rs1)) qs)"
          unfolding sw_def using s1 _ _ _ _ _
        proof (rule write_target)
          show "w \<noteq> A" using w Ars by blast
          show "w \<notin> labels_of (rest ''replication'' qs)" using w rsQ by (auto simp: Q_def)
          show "w \<noteq> r" using w rrs by blast
          show "lget rs1 ''write'' = LObj w ws \<or> lget rs1 ''write'' = LArr w []"
            using W1 LObj by simp
          have "labels_of (rest ''write'' rs1) \<subseteq> labels_of (rest ''write'' rs) \<union> labels Arr"
            unfolding rs1_def by (rule labels_of_rest_update) simp
          moreover have a: "w \<notin> labels_of (rest ''write'' rs)" using Wd LObj by auto
          moreover have "w \<notin> labels Arr" using ArrL vW a lt [OF w] by auto
          ultimately show "w \<notin> labels_of (rest ''write'' rs1)" by blast
        qed
        then have ow: "own sw = LObj A (AList.update ''replication'' (LObj r rs2) qs)"
          using W1 LObj by (simp add: rs2_def W'_def)
        have "own (assign r ''write'' W' sw) =
            LObj A (AList.update ''replication'' (LObj r (AList.update ''write'' W' rs2)) qs)"
          using ow rA rQ by (rule assign_replication)
        moreover have "AList.update ''write'' W' rs2 = rs2" by (simp add: rs2_def)
        moreover have "lget (lprops (replication_of sw)) ''write'' = W'"
          using ow by (simp add: replication_of_def lget_update rs2_def)
        moreover have "fresh sw = f1" by (simp add: sw_def fs1)
        ultimately show ?thesis
          using LObj rep1 W1 top1
          by (simp add: s2_def default_write_store_def Let_def f2_def sw_def [symmetric])
      next
        case (LVal p)
        then show ?thesis
          using assign2 rep1 W1 top1 fs1
          by (simp add: s2_def default_write_store_def allocate_def W'_def f2_def)
      next
        case (LArr y zs)
        then show ?thesis
          using assign2 rep1 W1 top1 fs1
          by (simp add: s2_def default_write_store_def allocate_def W'_def f2_def)
      qed
      then show "own s2 = LObj A (AList.update ''replication'' (LObj r rs2) qs)"
        and "fresh s2 = f2" by blast+
    qed

    define sF where "sF = foldl default_read_element s2 ts1"
    define now where "now = map (complete top) ts1"
    define n where "n = f2 + length now"
    define results where "results = read_results top f2 now"
    have rep2: "replication_of s2 = LObj r rs2"
      using s2 by (simp add: replication_of_def lget_update)
    have R2: "lget rs2 ''read'' = LArr x1 ([] @ ts1)"
      by (simp add: rs2_def rs1_def lget_update ArrE)
    have sF: "own sF = LObj A (AList.update ''replication''
        (LObj r (AList.update ''read'' (LArr x1 ([] @ map (complete (omit_replication qs)) ts1)) rs2)) qs)"
      unfolding sF_def using s2 R2 _ _ _ _ _ dts
    proof (rule reads_fold)
      show "A \<notin> (\<Union>t \<in> set ts1. labels t)" using L vl Ars by blast
      show "r \<notin> (\<Union>t \<in> set ts1. labels t)" using L vl rrs by blast
      show "(\<Union>t \<in> set ts1. labels t) \<inter> labels_of (rest ''replication'' qs) = {}"
        using L vl rsQ by (auto simp: Q_def)
      have "labels_of (rest ''read'' rs2) \<subseteq> labels_of (rest ''read'' rs1) \<union> labels W'"
        unfolding rs2_def by (rule labels_of_rest_update) simp
      moreover have "labels_of (rest ''read'' rs1) = labels_of (rest ''read'' rs)"
        by (simp add: rs1_def)
      moreover have "labels v \<inter> labels W' = {}"
      proof -
        have "labels v \<inter> labels W = {}" using vd Wv by blast
        moreover have "labels v \<inter> Q = {}" using vl rsQ by blast
        moreover have "f1 \<notin> labels v" using lt vl f1 by fastforce
        ultimately show ?thesis using W'l by blast
      qed
      ultimately show "(\<Union>t \<in> set ts1. labels t) \<inter> labels_of (rest ''read'' rs2) = {}"
        using L vd by blast
      show "(\<Union>t \<in> set ts1. labels t) \<inter> (\<Union>t \<in> set []. labels t) = {}" by simp
    qed
    have repF: "replication_of sF =
        LObj r (AList.update ''read'' (LArr x1 now) rs2)"
      using sF by (simp add: replication_of_def lget_update now_def top_def)
    have topF: "top_level sF = top" using sF by (simp add: top_level_shape top_def)
    have fF: "fresh sF = f2" by (simp add: sF_def fs2)
    have "own (assign r ''read'' (LArr n results) (sF\<lparr>fresh := n + 1\<rparr>)) =
        LObj A (AList.update ''replication''
          (LObj r (AList.update ''read'' (LArr n results)
             (AList.update ''read'' (LArr x1 ([] @ map (complete (omit_replication qs)) ts1)) rs2))) qs)"
      by (rule assign_replication) (use sF rA rQ in simp_all)
    moreover have "init_pools_store s = assign r ''read'' (LArr n results) (sF\<lparr>fresh := n + 1\<rparr>)"
      using rep0 rep2 R2 repF topF fF
      by (simp add: init_pools_store_def default_reads_store_def Let_def s1_def [symmetric]
          s2_def [symmetric] sF_def [symmetric] lget_update now_def [symmetric]
          n_def [symmetric] results_def [symmetric])
    ultimately have fin: "own (init_pools_store s) =
        LObj A (AList.update ''replication''
          (LObj r (AList.update ''read'' (LArr n results) rs2)) qs)"
      by simp
    have er: "map erase results =
        map (\<lambda>readConfig. JObj (defaults (as_object readConfig) (map (map_prod id erase) top)))
          (normalize_read (erase v))"
      unfolding results_def now_def nr using pts by (rule erase_read_results) simp
    have cm: "replication (config m) = Some \<lparr>write_cfg = erase W, read_cfg = erase v\<rparr>"
      and pm: "props (config m) = map (map_prod id erase) top"
      using c R by (simp_all add: config_of_def W_def v_def top_def)
    have "config_of (own (init_pools_store s)) =
        \<lparr>props = map (map_prod id erase) top,
         replication = Some \<lparr>write_cfg = erase W', read_cfg = JArr (map erase results)\<rparr>\<rparr>"
      by (simp add: fin config_of_def lget_update rs2_def top_def)
    moreover have "config (fst (init_pools m)) =
        \<lparr>props = map (map_prod id erase) top,
         replication = Some \<lparr>write_cfg = erase W', read_cfg = JArr (map erase results)\<rparr>\<rparr>"
      using init_pools_config [OF cm] by (simp add: pm eW' er)
    ultimately show ?thesis by simp
  qed
qed

lemma constructor_own:
  assumes "constructor_store a ps = Inr s" and "distinct (label_list (LObj a ps))"
    and "d = bound (LObj a ps)" and "qs = map (map_prod id (shift d)) ps"
  shows "own s = LObj (a + d) (AList.update ''pool''
      (case lget qs ''pool'' of LObj b pps \<Rightarrow> LObj b (pool_defaults pps)
       | _ \<Rightarrow> LObj (d + d) (pool_defaults [])) qs)"
    and "fresh s = (case lget qs ''pool'' of LObj b pps \<Rightarrow> d + d | _ \<Rightarrow> d + d + 1)"
proof -
  define s0 where "s0 = \<lparr>caller = LObj a ps, own = LObj (a + d) qs, fresh = d + d\<rparr>"
  have cl: "cloneDeep_tree (LObj a ps) = LObj (a + d) qs"
    by (simp add: cloneDeep_tree_def assms(3,4))
  have dq: "distinct (label_list (LObj (a + d) qs))"
    using distinct_shift [OF assms(2), of d] by (simp add: assms(4))
  have os: "own s0 = LObj (a + d) qs" "fresh s0 = d + d" by (simp_all add: s0_def)
  have "own s = LObj (a + d) (AList.update ''pool''
      (case lget qs ''pool'' of LObj b pps \<Rightarrow> LObj b (pool_defaults pps)
       | _ \<Rightarrow> LObj (d + d) (pool_defaults [])) qs) \<and>
    fresh s = (case lget qs ''pool'' of LObj b pps \<Rightarrow> d + d | _ \<Rightarrow> d + d + 1)"
  proof (cases "lget qs ''pool''")
    case (LObj b pps)
    have o1: "modify b pool_defaults (own s0) =
        LObj (a + d) (AList.update ''pool'' (LObj b (pool_defaults pps)) qs)"
      using modify_child [OF dq LObj] by (simp add: s0_def)
    have "s = assign (a + d) ''pool'' (LObj b (pool_defaults pps)) (write_store b pool_defaults s0)"
      using assms(1) [symmetric] LObj o1 os
      by (simp add: constructor_store_def Let_def cl assms(3) [symmetric] s0_def [symmetric]
          root_def lget_update)
    then show ?thesis using o1 os(2) LObj by simp
  next
    case (LVal x)
    then show ?thesis
      using assms(1) [symmetric] os
      by (simp add: constructor_store_def Let_def cl assms(3) [symmetric] s0_def [symmetric]
          root_def allocate_def split: if_splits)
  next
    case (LArr x ts)
    then show ?thesis
      using assms(1) [symmetric] os
      by (simp add: constructor_store_def Let_def cl assms(3) [symmetric] s0_def [symmetric]
          root_def allocate_def)
  qed
  then show "own s = LObj (a + d) (AList.update ''pool''
      (case lget qs ''pool'' of LObj b pps \<Rightarrow> LObj b (pool_defaults pps)
       | _ \<Rightarrow> LObj (d + d) (pool_defaults [])) qs)"
    and "fresh s = (case lget qs ''pool'' of LObj b pps \<Rightarrow> d + d | _ \<Rightarrow> d + d + 1)"
    by blast+
qed

lemma label_list_update_value:
  fixes ps :: "(string \<times> ltree) list"
  shows "lget ps k = LVal u \<Longrightarrow>
    concat (map snd (map (map_prod id label_list) (AList.update k (LVal x) ps))) =
    concat (map snd (map (map_prod id label_list) ps))"
proof (induction ps)
  case Nil
  then show ?case by simp
next
  case (Cons p ps)
  obtain k' u' where p: "p = (k', u')" by (cases p)
  show ?case using Cons unfolding p by (auto simp: lget_def)
qed

lemma label_list_lassign:
  "concat (map snd (map (map_prod id label_list) (lassign_default ps (k, LVal x)))) =
   concat (map snd (map (map_prod id label_list) ps))"
  using label_list_update_value [of ps k JUndefined x] by simp

lemma label_list_ldefaults:
  "concat (map snd (map (map_prod id label_list) (ldefaults ps (literal l)))) =
   concat (map snd (map (map_prod id label_list) ps))"
  unfolding ldefaults_def literal_def
proof (induction l arbitrary: ps)
  case Nil
  then show ?case by simp
next
  case (Cons e l)
  obtain k x where e: "e = (k, x)" by (cases e)
  show ?case using Cons [of "lassign_default ps (k, LVal x)"] label_list_lassign [of ps k x]
    unfolding e by simp
qed

lemma label_list_pool_defaults:
  "label_list (LObj b (pool_defaults pps)) = label_list (LObj b pps)"
  by (simp only: label_list.simps pool_defaults_def label_list_ldefaults)

lemma distinct_update:
  fixes ps :: "(string \<times> ltree) list"
  assumes "distinct (concat (map snd (map (map_prod id label_list) ps)))"
    and "distinct (label_list V)" and "labels V \<inter> labels_of (rest k ps) = {}"
  shows "distinct (concat (map snd (map (map_prod id label_list) (AList.update k V ps))))"
  using assms
proof (induction ps)
  case Nil
  then show ?case by simp
next
  case (Cons p ps)
  obtain k' u' where p: "p = (k', u')" by (cases p)
  have d: "distinct (concat (map snd (map (map_prod id label_list) ps)))"
    and x: "labels u' \<inter> labels_of ps = {}" and du: "distinct (label_list u')"
    using Cons.prems(1) unfolding p by (auto simp: labels_of_def labels_def)
  show ?case
  proof (cases "k' = k")
    case True
    then show ?thesis
      using Cons.prems(2,3) d unfolding p by (auto simp: labels_of_def labels_def)
  next
    case False
    have v: "labels V \<inter> labels u' = {}" "labels V \<inter> labels_of (rest k ps) = {}"
      using Cons.prems(3) False unfolding p by auto
    have "distinct (concat (map snd (map (map_prod id label_list) (AList.update k V ps))))"
      using d Cons.prems(2) v(2) by (rule Cons.IH)
    moreover have "labels u' \<inter> labels_of (AList.update k V ps) = {}"
      using labels_of_update [of k V ps] x v(1) by blast
    ultimately show ?thesis
      using False du unfolding p by (auto simp: labels_of_def labels_def)
  qed
qed

lemma plain_update:
  "plain (LObj A ps) \<Longrightarrow> plain V \<Longrightarrow> plain (LObj A' (AList.update k V ps))"
  by (induction ps) auto

lemma plain_lassign:
  "plain (LObj A ps) \<Longrightarrow> plain V \<Longrightarrow> plain (LObj A (lassign_default ps (k, V)))"
  using plain_update [of A ps V A k] by simp

lemma plain_pool_defaults: "plain (LObj b pps) \<Longrightarrow> plain (LObj b' (pool_defaults pps))"
proof -
  assume p: "plain (LObj b pps)"
  have v: "plain (LVal (JNum n))" "plain (LVal (JBool t))" "plain (LVal (JFun f))" for n t f
    by simp_all
  have "plain (LObj b (pool_defaults pps))"
    unfolding pool_defaults_def ldefaults_def literal_def defaultPoolingConfig_def
      list.map map_prod_simp id_apply foldl.simps
    by (intro plain_lassign p v)
  then show ?thesis by simp
qed

lemma constructor_tree:
  assumes "constructor_store a ps = Inr s" and "distinct (label_list (LObj a ps))"
    and "plain (LObj a ps)"
  shows "\<exists>A qs. own s = LObj A qs \<and> distinct (label_list (LObj A qs)) \<and> plain (LObj A qs) \<and>
    (\<forall>x \<in> labels (LObj A qs). x < fresh s)"
proof -
  define d where "d = bound (LObj a ps)"
  define qs where "qs = map (map_prod id (shift d)) ps"
  define V where "V = (case lget qs ''pool'' of LObj b pps \<Rightarrow> LObj b (pool_defaults pps)
       | _ \<Rightarrow> LObj (d + d) (pool_defaults []))"
  note own = constructor_own [OF assms(1,2) d_def qs_def, folded V_def]
  have sh: "shift d (LObj a ps) = LObj (a + d) qs" by (simp add: qs_def)
  have dq: "distinct (label_list (LObj (a + d) qs))"
    using distinct_shift [OF assms(2), of d] by (simp add: qs_def)
  then have dqs: "distinct (concat (map snd (map (map_prod id label_list) qs)))"
    and aq: "a + d \<notin> labels_of qs"
    by (auto simp: labels_of_def labels_def)
  have pq: "plain (LObj (a + d) qs)"
    using assms(3) unfolding sh [symmetric] by (simp only: plain_shift)
  have lo: "d \<le> x" and hi: "x < d + d" if "x \<in> labels (LObj (a + d) qs)" for x
  proof -
    from that obtain y where y: "y \<in> labels (LObj a ps)" "x = y + d"
      using labels_shift [of d "LObj a ps"] sh by auto
    then show "d \<le> x" by simp
    show "x < d + d" using bound_greater [OF y(1)] y(2) by (simp add: d_def)
  qed
  have V: "distinct (label_list V) \<and> labels V \<inter> labels_of (rest ''pool'' qs) = {} \<and> plain V \<and>
      a + d \<notin> labels V \<and> (\<forall>x \<in> labels V. x < fresh s)"
  proof (cases "lget qs ''pool''")
    case (LObj b pps)
    have m: "map_of qs ''pool'' = Some (LObj b pps)" using LObj by (rule lget_eq_map_of(1))
    have l: "label_list V = label_list (LObj b pps)"
      using LObj by (simp add: V_def label_list_pool_defaults del: label_list.simps)
    then have ls: "labels V = labels (LObj b pps)" by (simp add: labels_def)
    have sub: "labels (LObj b pps) \<subseteq> labels_of qs" using m by (rule labels_map_of)
    have "plain (LObj b pps)" using plain_lget [OF pq, of "''pool''"] LObj by simp
    then have "plain V" using LObj by (simp add: V_def plain_pool_defaults del: plain.simps)
    moreover have "\<forall>x \<in> labels V. x < fresh s"
      using ls sub hi own(2) LObj by auto
    ultimately show ?thesis
      using distinct_rest [OF dqs m] l ls sub aq by auto
  next
    case (LVal x)
    have "labels V = {d + d}"
      using LVal labels_of_pool_defaults [of "[]"] by (auto simp: V_def)
    moreover have "label_list V = [d + d]"
      using LVal label_list_pool_defaults [of "d + d" "[]"]
      by (simp add: V_def del: label_list.simps) simp
    then have "distinct (label_list V)" by simp
    moreover have "plain V"
      using LVal plain_pool_defaults [of 0 "[]" "d + d"] by (simp add: V_def)
    moreover have "d + d \<notin> labels_of (rest ''pool'' qs)"
      using hi labels_of_rest [of "''pool''" qs] by fastforce
    moreover have "a < d" using bound_greater [of a "LObj a ps"] by (simp add: d_def)
    ultimately show ?thesis using own(2) LVal by auto
  next
    case (LArr x ts)
    have "labels V = {d + d}"
      using LArr labels_of_pool_defaults [of "[]"] by (auto simp: V_def)
    moreover have "label_list V = [d + d]"
      using LArr label_list_pool_defaults [of "d + d" "[]"]
      by (simp add: V_def del: label_list.simps) simp
    then have "distinct (label_list V)" by simp
    moreover have "plain V"
      using LArr plain_pool_defaults [of 0 "[]" "d + d"] by (simp add: V_def)
    moreover have "d + d \<notin> labels_of (rest ''pool'' qs)"
      using hi labels_of_rest [of "''pool''" qs] by fastforce
    moreover have "a < d" using bound_greater [of a "LObj a ps"] by (simp add: d_def)
    ultimately show ?thesis using own(2) LArr by auto
  qed
  have f: "d + d \<le> fresh s" using own(2) by (cases "lget qs ''pool''") simp_all
  have "distinct (concat (map snd (map (map_prod id label_list) (AList.update ''pool'' V qs))))"
    using dqs V by (intro distinct_update) blast+
  moreover have lu: "labels_of (AList.update ''pool'' V qs) \<subseteq> labels_of qs \<union> labels V"
    by (rule labels_of_update)
  ultimately have 1: "distinct (label_list (LObj (a + d) (AList.update ''pool'' V qs)))"
    using aq V by (auto simp: labels_of_def labels_def)
  have 2: "plain (LObj (a + d) (AList.update ''pool'' V qs))"
    using pq V by (intro plain_update) blast+
  have 3: "\<forall>x \<in> labels (LObj (a + d) (AList.update ''pool'' V qs)). x < fresh s"
    using lu V hi f by fastforce
  from own(1) 1 2 3 show ?thesis by blast
qed

lemma ex_store_constructed: "constructor_store 0 ex_props = Inr ex_store"
  by code_simp

lemma ex_single_read_manager_constructed:
  "constructor (Some ''5.6.0'') ex_valid ex_single_read_config (JNum 0) = Inr ex_single_read_manager"
  by (simp add: constructor_def ex_single_read_manager_def new_manager_def
      ex_single_read_config_def ex_pool_def cloneDeep_def get_def defaults_def
      defaultPoolingConfig_def Let_def)

lemma store_run_operations:
  "InitPools \<notin> set es \<Longrightarrow> store_run s (map Operation es) = s"
proof (induction es)
  case Nil
  then show ?case by (simp add: store_run_def)
next
  case (Cons e es)
  then have "store_step s (Operation e) = s" by (cases e) simp_all
  then show ?case using Cons by (simp add: store_run_def)
qed

lemma store_run_append: "store_run s (ts @ us) = store_run (store_run s ts) us"
  by (simp add: store_run_def)

lemma first_init_pools_refines:
  assumes "constructor_store a ps = Inr s"
    and "constructor dv valid (config_of (LObj a ps)) v = Inr m"
    and "distinct (label_list (LObj a ps))" and "plain (LObj a ps)"
    and "InitPools \<notin> set es"
  shows "config_of (own (store_run s (map Operation es))) = config (fst (run m es))"
    and "config_of (own (store_run s (map Operation (es @ [InitPools])))) =
         config (fst (run m (es @ [InitPools])))"
proof -
  have r: "config_of (own s) = config m"
    using constructor_refines [OF assms(3,4), of dv valid v] assms(1,2) by simp
  have c: "config (fst (run m es)) = config m" using assms(5) by (rule config_run)
  show "config_of (own (store_run s (map Operation es))) = config (fst (run m es))"
    using r c store_run_operations [OF assms(5)] by simp
  from constructor_tree [OF assms(1,3,4)] obtain A qs where
    t: "own s = LObj A qs" "distinct (label_list (LObj A qs))" "plain (LObj A qs)"
      "\<forall>x \<in> labels (LObj A qs). x < fresh s"
    by blast
  have "config (fst (run m es)) = config_of (LObj A qs)" using r c t(1) by simp
  with t have "config_of (own (init_pools_store s)) = config (fst (init_pools (fst (run m es))))"
    by (rule init_pools_refines)
  then show "config_of (own (store_run s (map Operation (es @ [InitPools])))) =
         config (fst (run m (es @ [InitPools])))"
    using store_run_operations [OF assms(5), of s]
    by (simp add: store_run_append fst_run_append) (simp add: store_run_def)
qed

text \<open>
  C8 (as the code has it). The constructor takes a deep copy of the caller's
  configuration: no object of the copy is an object of the caller's configuration. The
  separation lasts through every run of operations of the manager, \<open>initPools\<close>
  included, and of assignments by \<open>beforeConnect\<close> hooks to the objects of the copy:
  the caller's configuration stays as it was and shares no object with the copy. For a
  caller's configuration that is a tree of objects, none referenced twice, the copy holds
  the configuration of the state machine, after the constructor and up to and including
  the first call of \<open>initPools\<close>. The copy itself is not constant. Every operation
  keeps its top-level properties, and it stays unchanged altogether when no replication
  is configured or as long as \<open>initPools\<close> is not called; but \<open>initPools\<close> with
  replication, whenever it is called, rewrites \<open>config.replication\<close> in place:
  \<open>read\<close> becomes the list of the read targets, and \<open>write\<close> and every read target
  are completed with the top-level properties.
\<close>

theorem config_frame:
  assumes "constructor_store a ps = Inr s" and "constructor dv valid c v = Inr m"
  shows "caller (store_run s ts) = LObj a ps \<and>
     labels (own (store_run s ts)) \<inter> labels (LObj a ps) = {} \<and>
     (distinct (label_list (LObj a ps)) \<and> plain (LObj a ps) \<and> c = config_of (LObj a ps) \<and>
      InitPools \<notin> set es \<longrightarrow>
        config_of (own (store_run s (map Operation es))) = config (fst (run m es)) \<and>
        config_of (own (store_run s (map Operation (es @ [InitPools])))) =
          config (fst (run m (es @ [InitPools])))) \<and>
     props (config (fst (run m es))) = props (config m) \<and>
     (replication c = None \<or> InitPools \<notin> set es \<longrightarrow> config (fst (run m es)) = config m) \<and>
     (\<forall>r. replication (config (fst (run m es))) = Some r \<longrightarrow>
        config (fst (step (fst (run m es)) InitPools)) =
          (config (fst (run m es)))\<lparr>replication := Some
             \<lparr>write_cfg = JObj (defaults (as_object (write_cfg r)) (props (config m))),
              read_cfg = JArr (map (\<lambda>readConfig. JObj (defaults (as_object readConfig) (props (config m))))
                            (normalize_read (read_cfg r)))\<rparr>\<rparr>)"
proof -
  have "apart (LObj a ps) (store_run s ts)"
    using constructor_apart [OF assms(1)] by (rule store_run_apart)
  then have a: "caller (store_run s ts) = LObj a ps"
    and b: "labels (own (store_run s ts)) \<inter> labels (LObj a ps) = {}"
    unfolding apart_def by blast+
  have r: "config_of (own (store_run s (map Operation es))) = config (fst (run m es)) \<and>
        config_of (own (store_run s (map Operation (es @ [InitPools])))) =
          config (fst (run m (es @ [InitPools])))"
    if "distinct (label_list (LObj a ps))" "plain (LObj a ps)" "c = config_of (LObj a ps)"
      "InitPools \<notin> set es"
    using first_init_pools_refines [OF assms(1) _ that(1,2,4), of dv valid v m] assms(2) that(3)
    by simp
  have c: "props (config (fst (run m es))) = props (config m)" by (rule props_run)
  have d: "replication c = None \<or> InitPools \<notin> set es \<longrightarrow> config (fst (run m es)) = config m"
    using constructor_fields(2) [OF assms(2)] config_run [of es m] config_run_plain [of m es]
    by auto
  have e: "config (fst (step (fst (run m es)) InitPools)) =
          (config (fst (run m es)))\<lparr>replication := Some
             \<lparr>write_cfg = JObj (defaults (as_object (write_cfg r)) (props (config m))),
              read_cfg = JArr (map (\<lambda>readConfig. JObj (defaults (as_object readConfig) (props (config m))))
                            (normalize_read (read_cfg r)))\<rparr>\<rparr>"
    if "replication (config (fst (run m es))) = Some r" for r
    using init_pools_config [OF that] by (simp add: c)
  from a b r c d e show ?thesis by blast
qed

theorem config_frame_witness:
  "caller (store_run ex_store ex_turns) = LObj 0 ex_props \<and>
   labels (own (store_run ex_store ex_turns)) \<inter> {0, 1, 2} = {} \<and>
   own (store_run ex_store ex_turns) \<noteq> own ex_store \<and>
   config_of (own ex_store) = config ex_single_read_manager \<and>
   config_of (own (init_pools_store ex_store)) = config (fst (step ex_single_read_manager InitPools)) \<and>
   config_of (own (store_run ex_store (map Operation [InitPools, InitPools]))) =
     config (fst (run ex_single_read_manager [InitPools, InitPools])) \<and>
   config (fst (run ex_single_read_manager [GetConnection None, Close])) =
     config ex_single_read_manager \<and>
   config (fst (step ex_single_read_manager InitPools)) =
     (config ex_single_read_manager)\<lparr>replication := Some
        \<lparr>write_cfg = JObj [(''database'', JStr ''db''), (''host'', JStr ''main''), (''pool'', ex_pool)],
         read_cfg = JArr [JObj [(''host'', JStr ''replica''), (''database'', JStr ''db''),
                                (''pool'', ex_pool)]]\<rparr>\<rparr>"
proof -
  have h: "distinct (label_list (LObj 0 ex_props))" "plain (LObj 0 ex_props)"
    "ex_single_read_config = config_of (LObj 0 ex_props)"
    "labels (LObj 0 ex_props) = {0, 1, 2}"
    by (simp_all add: ex_props_def ex_single_read_config_def config_of_def omit_replication_def
        lget_def labels_def insert_commute)
  have n: "InitPools \<notin> set [GetConnection None, Close]" by simp
  note t = config_frame [OF ex_store_constructed ex_single_read_manager_constructed]
  have a: "caller (store_run ex_store ex_turns) = LObj 0 ex_props"
    and b: "labels (own (store_run ex_store ex_turns)) \<inter> labels (LObj 0 ex_props) = {}"
    using t [of ex_turns "[]"] by blast+
  have "config_of (own (store_run ex_store (map Operation []))) =
      config (fst (run ex_single_read_manager [])) \<and>
    config_of (own (store_run ex_store (map Operation ([] @ [InitPools])))) =
      config (fst (run ex_single_read_manager ([] @ [InitPools])))"
    using t [of "[]" "[]"] h(1,2,3) by simp
  then have c: "config_of (own ex_store) = config ex_single_read_manager"
    and g: "config_of (own (init_pools_store ex_store)) =
      config (fst (step ex_single_read_manager InitPools))"
    by (simp_all add: store_run_def)
  have d: "config (fst (run ex_single_read_manager [GetConnection None, Close])) =
     config ex_single_read_manager"
    using t [of "[]" "[GetConnection None, Close]"] n by blast
  have r: "replication (config (fst (run ex_single_read_manager []))) =
      Some \<lparr>write_cfg = JUndefined, read_cfg = JObj [(''host'', JStr ''replica'')]\<rparr>"
    by (simp add: ex_single_read_manager_def new_manager_def ex_single_read_config_def)
  have "config (fst (step (fst (run ex_single_read_manager [])) InitPools)) =
      (config (fst (run ex_single_read_manager [])))\<lparr>replication := Some
         \<lparr>write_cfg = JObj (defaults (as_object (write_cfg
             \<lparr>write_cfg = JUndefined, read_cfg = JObj [(''host'', JStr ''replica'')]\<rparr>))
             (props (config ex_single_read_manager))),
          read_cfg = JArr (map (\<lambda>readConfig. JObj (defaults (as_object readConfig)
               (props (config ex_single_read_manager))))
             (normalize_read (read_cfg
               \<lparr>write_cfg = JUndefined, read_cfg = JObj [(''host'', JStr ''replica'')]\<rparr>)))\<rparr>\<rparr>"
    using t [of "[]" "[]"] r by blast
  then have e: "config (fst (step ex_single_read_manager InitPools)) =
     (config ex_single_read_manager)\<lparr>replication := Some
        \<lparr>write_cfg = JObj [(''database'', JStr ''db''), (''host'', JStr ''main''), (''pool'', ex_pool)],
         read_cfg = JArr [JObj [(''host'', JStr ''replica''), (''database'', JStr ''db''),
                                (''pool'', ex_pool)]]\<rparr>\<rparr>"
    by (simp add: ex_single_read_manager_def new_manager_def normalize_read_def defaults_def
        get_def)
  have f: "own (store_run ex_store ex_turns) \<noteq> own ex_store"
    by code_simp
  have k: "config_of (own (store_run ex_store (map Operation [InitPools, InitPools]))) =
     config (fst (run ex_single_read_manager [InitPools, InitPools]))"
    by code_simp
  from a b c d e f g k show ?thesis by (simp only: h(4) simp_thms)
qed

text \<open>
  The claim that the configuration is never mutated after construction fails at
  \<open>initPools\<close>: with a single read target and no write target configured, it stores the
  list of the one completed read target and a write target made of the top-level
  properties.
\<close>

theorem config_init_pools_counterexample:
  "constructor (Some ''5.6.0'') ex_valid ex_single_read_config (JNum 0) = Inr ex_single_read_manager \<and>
   replication (config ex_single_read_manager) =
     Some \<lparr>write_cfg = JUndefined, read_cfg = JObj [(''host'', JStr ''replica'')]\<rparr> \<and>
   replication (config (fst (step ex_single_read_manager InitPools))) =
     Some \<lparr>write_cfg = JObj [(''database'', JStr ''db''), (''host'', JStr ''main''), (''pool'', ex_pool)],
           read_cfg = JArr [JObj [(''host'', JStr ''replica''), (''database'', JStr ''db''),
                                  (''pool'', ex_pool)]]\<rparr> \<and>
   config (fst (step ex_single_read_manager InitPools)) \<noteq> config ex_single_read_manager"
  by (simp add: constructor_def ex_single_read_manager_def new_manager_def
      ex_single_read_config_def ex_pool_def cloneDeep_def get_def defaults_def
      defaultPoolingConfig_def Let_def init_pools_def normalize_read_def)

subsection \<open>The invariant of version detection\<close>

lemma new_version_resolved:
  "(if valid_version m v then v else default_version m) \<noteq> JNum 0"
  by (auto simp: valid_version_def default_version_def split: jsval.splits option.splits)

lemma invD1:
  "detecting_inv m \<Longrightarrow> detections m p = Some ph \<Longrightarrow> in_flight ph \<Longrightarrow>
   versionPromise m = Some p \<and> databaseVersion m = JNum 0"
  unfolding detecting_inv_def by metis

lemma invD2:
  "detecting_inv m \<Longrightarrow> detections m p = Some ph \<Longrightarrow> \<not> in_flight ph \<Longrightarrow>
   databaseVersion m \<noteq> JNum 0"
  unfolding detecting_inv_def by metis

lemma invD3: "detecting_inv m \<Longrightarrow> deferred m \<noteq> [] \<Longrightarrow> databaseVersion m \<noteq> JNum 0"
  unfolding detecting_inv_def by blast

lemma invI:
  assumes "\<And>p ph. detections m p = Some ph \<Longrightarrow> in_flight ph \<Longrightarrow>
      versionPromise m = Some p \<and> databaseVersion m = JNum 0"
    and "\<And>p ph. detections m p = Some ph \<Longrightarrow> \<not> in_flight ph \<Longrightarrow> databaseVersion m \<noteq> JNum 0"
    and "deferred m \<noteq> [] \<Longrightarrow> databaseVersion m \<noteq> JNum 0"
  shows "detecting_inv m"
  unfolding detecting_inv_def using assms by auto

lemma inv_frame:
  assumes "detecting_inv m" "detections m' = detections m" "versionPromise m' = versionPromise m"
    "databaseVersion m' = databaseVersion m" "deferred m' = deferred m"
  shows "detecting_inv m'"
  using assms unfolding detecting_inv_def by simp

lemma inv_get_connection:
  assumes inv: "detecting_inv m"
  shows "detecting_inv (fst (get_connection m opts))"
proof (cases "getConnection_slot m")
  case RejectAfterClose
  then show ?thesis
    by (intro inv_frame [OF inv]) (simp_all add: get_connection_def Let_def)
next
  case PrototypeMethod
  show ?thesis
  proof (cases "databaseVersion m = JNum 0")
    case False
    with PrototypeMethod inv show ?thesis
      unfolding detecting_inv_def by (simp add: get_connection_def Let_def)
  next
    case True
    show ?thesis
    proof (cases "versionPromise m")
      case (Some p)
      with True PrototypeMethod show ?thesis
        by (intro inv_frame [OF inv]) (simp_all add: get_connection_def Let_def)
    next
      case None
      have no: "detections m q = Some ph \<Longrightarrow> False" for q ph
        using invD1 [OF inv, of q ph] invD2 [OF inv, of q ph] None True by (cases "in_flight ph") auto
      have d: "deferred m = []" using invD3 [OF inv] True by auto
      show ?thesis
        using None True PrototypeMethod d
        by (intro invI) (auto simp: get_connection_def Let_def split: if_splits dest: no)
    qed
  qed
qed

lemma inv_fail:
  assumes inv: "detecting_inv m" and ph: "detections m p = Some ph"
  shows "detecting_inv (fst (fail m p err))"
proof (intro invI)
  fix q ph'
  assume q: "detections (fst (fail m p err)) q = Some ph'"
  then have qp: "q \<noteq> p" and dq: "detections m q = Some ph'"
    by (auto simp: fail_def split: if_splits)
  {
    assume f: "in_flight ph'"
    have "in_flight ph \<Longrightarrow> False"
      using invD1 [OF inv dq f] invD1 [OF inv ph] qp by auto
    moreover have "\<not> in_flight ph \<Longrightarrow> False"
      using invD1 [OF inv dq f] invD2 [OF inv ph] by auto
    ultimately have False by blast
    then show "versionPromise (fst (fail m p err)) = Some q \<and>
        databaseVersion (fst (fail m p err)) = JNum 0" ..
  }
  {
    assume "\<not> in_flight ph'"
    from invD2 [OF inv dq this]
    show "databaseVersion (fst (fail m p err)) \<noteq> JNum 0" by (simp add: fail_def)
  }
next
  assume "deferred (fst (fail m p err)) \<noteq> []"
  then show "databaseVersion (fst (fail m p err)) \<noteq> JNum 0"
    using invD3 [OF inv] by (simp add: fail_def)
qed

lemma inv_fulfil:
  assumes inv: "detecting_inv m"
  shows "detecting_inv (fst (fulfil m p))"
proof (intro invI)
  fix q ph'
  assume q: "detections (fst (fulfil m p)) q = Some ph'"
  then have dq: "detections m q = Some ph'"
    by (auto simp: fulfil_def split: if_splits)
  {
    assume "in_flight ph'"
    from invD1 [OF inv dq this]
    show "versionPromise (fst (fulfil m p)) = Some q \<and>
        databaseVersion (fst (fulfil m p)) = JNum 0" by (simp add: fulfil_def)
  }
  {
    assume "\<not> in_flight ph'"
    from invD2 [OF inv dq this]
    show "databaseVersion (fst (fulfil m p)) \<noteq> JNum 0" by (simp add: fulfil_def)
  }
next
  assume "deferred (fst (fulfil m p)) \<noteq> []"
  then show "databaseVersion (fst (fulfil m p)) \<noteq> JNum 0"
    using invD3 [OF inv] by (simp add: fulfil_def)
qed

lemma inv_connect_done:
  assumes inv: "detecting_inv m"
  shows "detecting_inv (fst (connect_done m p r))"
proof (cases "detections m p = Some Connecting")
  case False
  then have "connect_done m p r = (m, [])"
    by (auto simp: connect_done_def split: op_splits)
  with inv show ?thesis by simp
next
  case True
  show ?thesis
  proof (cases r)
    case (Inl err)
    with True inv_fail [OF inv True, of err] show ?thesis
      by (simp add: connect_done_def)
  next
    case (Inr c)
    have m': "fst (connect_done m p r) = m\<lparr>detections := (detections m)(p \<mapsto> Querying c)\<rparr>"
      using True Inr by (simp add: connect_done_def)
    show ?thesis unfolding m'
    proof (intro invI)
      fix q ph'
      assume q: "detections (m\<lparr>detections := (detections m)(p \<mapsto> Querying c)\<rparr>) q = Some ph'"
      {
        assume f: "in_flight ph'"
        show "versionPromise (m\<lparr>detections := (detections m)(p \<mapsto> Querying c)\<rparr>) = Some q \<and>
          databaseVersion (m\<lparr>detections := (detections m)(p \<mapsto> Querying c)\<rparr>) = JNum 0"
          using q f invD1 [OF inv True] invD1 [OF inv, of q ph']
          by (auto split: if_splits)
      }
      {
        assume f: "\<not> in_flight ph'"
        show "databaseVersion (m\<lparr>detections := (detections m)(p \<mapsto> Querying c)\<rparr>) \<noteq> JNum 0"
          using q f invD2 [OF inv, of q ph'] by (auto split: if_splits)
      }
    next
      assume "deferred (m\<lparr>detections := (detections m)(p \<mapsto> Querying c)\<rparr>) \<noteq> []"
      then show "databaseVersion (m\<lparr>detections := (detections m)(p \<mapsto> Querying c)\<rparr>) \<noteq> JNum 0"
        using invD3 [OF inv] by simp
    qed
  qed
qed

lemma inv_query_done:
  assumes inv: "detecting_inv m"
  shows "detecting_inv (fst (query_done m p r))"
proof (cases "\<exists>c. detections m p = Some (Querying c)")
  case False
  then have "query_done m p r = (m, [])"
    by (auto simp: query_done_def split: op_splits)
  with inv show ?thesis by simp
next
  case True
  then obtain c where c: "detections m p = Some (Querying c)" by blast
  show ?thesis
  proof (cases r)
    case (Inl err)
    with c inv_fail [OF inv c, of err] show ?thesis
      by (simp add: query_done_def)
  next
    case (Inr v)
    let ?m' = "m\<lparr>databaseVersion := (if valid_version m v then v else default_version m),
                   versionPromise := None,
                   detections := (detections m)(p \<mapsto> Disconnecting c)\<rparr>"
    have m': "fst (query_done m p r) = ?m'"
      using c Inr by (simp add: query_done_def)
    have nv: "databaseVersion ?m' \<noteq> JNum 0"
      using new_version_resolved [of m v] by simp
    show ?thesis unfolding m'
    proof (intro invI)
      fix q ph'
      assume q: "detections ?m' q = Some ph'"
      {
        assume f: "in_flight ph'"
        from q f have qp: "q \<noteq> p" and dq: "detections m q = Some ph'"
          by (auto split: if_splits)
        from invD1 [OF inv dq f] invD1 [OF inv c] qp have False by auto
        then show "versionPromise ?m' = Some q \<and> databaseVersion ?m' = JNum 0" ..
      }
      {
        assume "\<not> in_flight ph'"
        show "databaseVersion ?m' \<noteq> JNum 0" by (rule nv)
      }
    next
      show "databaseVersion ?m' \<noteq> JNum 0" by (rule nv)
    qed
  qed
qed

lemma inv_disconnect_done:
  assumes inv: "detecting_inv m"
  shows "detecting_inv (fst (disconnect_done m p r))"
proof (cases "\<exists>c. detections m p = Some (Disconnecting c)")
  case False
  then have "disconnect_done m p r = (m, [])"
    by (auto simp: disconnect_done_def split: op_splits)
  with inv show ?thesis by simp
next
  case True
  then obtain c where c: "detections m p = Some (Disconnecting c)" by blast
  show ?thesis
    using c inv_fail [OF inv c] inv_fulfil [OF inv, of p]
    by (cases r) (simp_all add: disconnect_done_def)
qed

lemma inv_step:
  assumes inv: "detecting_inv m"
  shows "detecting_inv (fst (step m e))"
proof (cases e)
  case (GetConnection opts)
  then show ?thesis using inv_get_connection [OF inv] by simp
next
  case (ConnectDone p r)
  then show ?thesis using inv_connect_done [OF inv] by simp
next
  case (QueryDone p r)
  then show ?thesis using inv_query_done [OF inv] by simp
next
  case (DisconnectDone p r)
  then show ?thesis using inv_disconnect_done [OF inv] by simp
next
  case RunCallbacks
  then show ?thesis using inv unfolding detecting_inv_def by (simp add: run_callbacks_def)
qed (rule inv_frame [OF inv]; auto simp: op_defs Let_def split: op_splits)+

lemma inv_run: "detecting_inv m \<Longrightarrow> detecting_inv (fst (run m es))"
  by (induction es arbitrary: m) (simp_all add: fst_run_Cons inv_step del: run.simps(2))

lemma inv_constructor: "constructor dv valid c v = Inr m \<Longrightarrow> detecting_inv m"
  unfolding detecting_inv_def
  by (auto simp: constructor_def Let_def split: if_splits)

lemma promise_inv_step:
  assumes "promise_inv m"
  shows "promise_inv (fst (step m e))"
proof (cases e)
  case (GetConnection opts)
  with assms show ?thesis
    by (auto simp: promise_inv_def awaited_def get_connection_def Let_def split: op_splits)
next
  case (ConnectDone p r)
  with assms show ?thesis
    by (auto simp: promise_inv_def awaited_def connect_done_def fail_def split: op_splits)
next
  case (QueryDone p r)
  with assms show ?thesis
    by (auto simp: promise_inv_def awaited_def query_done_def fail_def split: op_splits)
next
  case (DisconnectDone p r)
  with assms show ?thesis
    by (auto simp: promise_inv_def awaited_def disconnect_done_def fail_def fulfil_def
        split: op_splits)
qed (use assms in \<open>auto simp: promise_inv_def awaited_def op_defs Let_def split: op_splits\<close>)

lemma promise_inv_run: "promise_inv m \<Longrightarrow> promise_inv (fst (run m es))"
  by (induction es arbitrary: m) (simp_all add: fst_run_Cons promise_inv_step del: run.simps(2))

lemma promise_inv_constructor: "constructor dv valid c v = Inr m \<Longrightarrow> promise_inv m"
  by (auto simp: promise_inv_def constructor_def Let_def split: if_splits)

subsection \<open>Counting detections\<close>

lemma filter_acquire [simp]:
  "filter is_private_connect (pool_acquire m c opts) = []"
  "filter is_version_query (pool_acquire m c opts) = []"
  by (simp_all add: pool_acquire_def split: op_splits)

lemma filter_resume [simp]:
  "filter is_private_connect (concat (map (resume m p) ws)) = []"
  "filter is_version_query (concat (map (resume m p) ws)) = []"
  by (induction ws) auto

lemma filter_refuse [simp]:
  "filter is_private_connect (concat (map (refuse err p) ws)) = []"
  "filter is_version_query (concat (map (refuse err p) ws)) = []"
  by (induction ws) auto

lemma filter_deferred [simp]:
  "filter is_private_connect (concat (map (run_deferred m) ws)) = []"
  "filter is_version_query (concat (map (run_deferred m) ws)) = []"
  by (induction ws) auto

lemma private_connects_step:
  "private_connects (snd (step m e)) + started m \<le> started (fst (step m e)) + failed e"
proof (cases e)
  case (QueryDone p r)
  then show ?thesis
    using new_version_resolved
    by (cases r) (auto simp: private_connects_def started_def failed_def query_done_def fail_def
        split: op_splits)
qed (auto simp: private_connects_def started_def failed_def op_defs Let_def
     router_drain_def router_destroyAllNow_def split: op_splits)

lemma failures_Cons: "failures (e # es) = failed e + failures es"
  by (simp add: failures_def failed_def)

lemma private_connects_run:
  "private_connects (snd (run m es)) + started m \<le> 1 + failures es"
proof (induction es arbitrary: m)
  case Nil
  then show ?case by (simp add: private_connects_def started_def failures_def)
next
  case (Cons e es)
  have "private_connects (snd (run m (e # es))) =
      private_connects (snd (step m e)) + private_connects (snd (run (fst (step m e)) es))"
    by (simp add: snd_run_Cons private_connects_def del: run.simps(2))
  with Cons.IH [of "fst (step m e)"] private_connects_step [of m e]
  show ?case by (simp add: failures_Cons del: run.simps(2))
qed

lemma version_queries_append:
  "version_queries (xs @ ys) = version_queries xs + version_queries ys"
  by (simp add: version_queries_def)

lemma query_budget_fail:
  "version_queries (snd (fail m p err)) + query_budget (fst (fail m p err)) \<le> query_budget m + 1"
  by (simp add: version_queries_def query_budget_def fail_def)

lemma query_budget_step:
  assumes inv: "detecting_inv m"
  shows "version_queries (snd (step m e)) + query_budget (fst (step m e)) \<le> query_budget m + failed e"
proof (cases e)
  case (GetConnection opts)
  then show ?thesis
    by (auto simp: version_queries_def query_budget_def get_connection_def Let_def
        split: op_splits)
next
  case (ConnectDone p r)
  show ?thesis
  proof (cases "detections m p = Some Connecting")
    case False
    then have "connect_done m p r = (m, [])"
      by (auto simp: connect_done_def split: op_splits)
    with ConnectDone show ?thesis by (simp add: version_queries_def)
  next
    case True
    from invD1 [OF inv True] have vp: "versionPromise m = Some p" by simp
    show ?thesis
    proof (cases r)
      case (Inl err)
      with ConnectDone True query_budget_fail [of m p err] show ?thesis
        by (simp add: connect_done_def failed_def)
    next
      case (Inr c)
      with ConnectDone True vp show ?thesis
        by (simp add: connect_done_def version_queries_def query_budget_def)
    qed
  qed
next
  case (QueryDone p r)
  show ?thesis
  proof (cases r)
    case (Inl err)
    with QueryDone query_budget_fail [of m p err] show ?thesis
      by (auto simp: query_done_def failed_def version_queries_def split: op_splits)
  next
    case (Inr v)
    with QueryDone new_version_resolved [of m v] show ?thesis
      by (auto simp: query_done_def version_queries_def query_budget_def split: op_splits)
  qed
next
  case (DisconnectDone p r)
  show ?thesis
  proof (cases r)
    case (Some err)
    with DisconnectDone query_budget_fail [of m p err] show ?thesis
      by (auto simp: disconnect_done_def failed_def version_queries_def split: op_splits)
  next
    case None
    with DisconnectDone show ?thesis
      by (auto simp: disconnect_done_def fulfil_def version_queries_def query_budget_def
          split: op_splits)
  qed
qed (auto simp: version_queries_def query_budget_def op_defs Let_def
     router_drain_def router_destroyAllNow_def split: op_splits)

lemma version_queries_run:
  "detecting_inv m \<Longrightarrow> version_queries (snd (run m es)) \<le> query_budget m + failures es"
proof (induction es arbitrary: m)
  case Nil
  then show ?case by (simp add: version_queries_def)
next
  case (Cons e es)
  from Cons.prems have "detecting_inv (fst (step m e))" by (rule inv_step)
  from Cons.IH [OF this] query_budget_step [OF Cons.prems, of e]
  show ?case
    by (simp add: snd_run_Cons version_queries_append failures_Cons del: run.simps(2))
qed

lemma query_budget_le: "query_budget m \<le> 1"
  by (simp add: query_budget_def split: option.splits)

subsection \<open>The version callers see\<close>

lemma acquire_refuse1: "list_ex is_acquire (refuse err p w) = False"
  by (cases w) simp

lemma acquire_refuse: "list_ex is_acquire (concat (map (refuse err p) ws)) = False"
  by (induction ws) (simp_all add: acquire_refuse1)

lemma no_acquire_step:
  assumes "\<And>p r. e \<noteq> DisconnectDone p r" "e \<noteq> RunCallbacks"
  shows "list_ex is_acquire (snd (step m e)) = False"
  using assms
  by (cases e) (simp_all add: op_defs Let_def acquire_refuse router_drain_def
      router_destroyAllNow_def split: op_splits)

lemma acquire_when_resolved:
  assumes inv: "detecting_inv m" and acq: "list_ex is_acquire (snd (step m e))"
  shows "databaseVersion (fst (step m e)) \<noteq> JNum 0"
proof (cases e)
  case (DisconnectDone p r)
  show ?thesis
  proof (cases "detections m p")
    case None
    with acq DisconnectDone show ?thesis by (simp add: disconnect_done_def)
  next
    case (Some ph)
    show ?thesis
    proof (cases ph)
      case (Disconnecting c)
      with Some invD2 [OF inv, of p ph] have "databaseVersion m \<noteq> JNum 0" by simp
      with DisconnectDone Some Disconnecting show ?thesis
        by (cases r) (simp_all add: disconnect_done_def fulfil_def fail_def)
    qed (use acq DisconnectDone Some in \<open>simp_all add: disconnect_done_def\<close>)
  qed
next
  case RunCallbacks
  with acq have "deferred m \<noteq> []" by (auto simp: run_callbacks_def)
  with invD3 [OF inv] RunCallbacks show ?thesis by (simp add: run_callbacks_def)
qed (use acq no_acquire_step [of e m] in simp_all)

lemma version_step:
  assumes inv: "detecting_inv m" and res: "databaseVersion m \<noteq> JNum 0"
  shows "databaseVersion (fst (step m e)) = databaseVersion m"
proof (cases e)
  case (QueryDone p r)
  have "detections m p = Some (Querying c) \<Longrightarrow> False" for c
    using invD1 [OF inv, of p "Querying c"] res by simp
  with QueryDone show ?thesis
    by (auto simp: query_done_def fail_def split: op_splits)
qed (auto simp: op_defs Let_def split: op_splits)

lemma version_run:
  "detecting_inv m \<Longrightarrow> databaseVersion m \<noteq> JNum 0 \<Longrightarrow>
   databaseVersion (fst (run m es)) = databaseVersion m"
proof (induction es arbitrary: m)
  case Nil
  then show ?case by simp
next
  case (Cons e es)
  have v: "databaseVersion (fst (step m e)) = databaseVersion m"
    using Cons.prems by (rule version_step)
  have "detecting_inv (fst (step m e))" using Cons.prems(1) by (rule inv_step)
  from Cons.IH [OF this] v Cons.prems(2) show ?case
    by (simp add: fst_run_Cons del: run.simps(2))
qed

lemma shared_detection:
  assumes "getConnection_slot m = PrototypeMethod" "databaseVersion m = JNum 0"
    "versionPromise m = Some p"
  shows "get_connection m opts =
     (m\<lparr>next_caller := next_caller m + 1,
        waiters := waiters m @ [(p, next_caller m, case opts of None \<Rightarrow> empty_options | Some v \<Rightarrow> v)]\<rparr>,
      [])"
  using assms by (simp add: get_connection_def Let_def)

lemma ex_detect_state:
  "databaseVersion (fst (run ex_manager ex_detect_events)) = JStr ''5.7.20''"
  "snd (step (fst (run ex_manager ex_detect_events)) (DisconnectDone 0 None)) =
     [Acquire PlainPool 0 JUndefined, Acquire PlainPool 1 JUndefined, Acquire PlainPool 2 JUndefined]"
  by (simp_all add: ex_detect_events_def run_eval fail_def fulfil_def)

text \<open>
  C1 (as the code has it). For a manager from the constructor and any run \<open>es\<close>, with
  however many \<open>getConnection\<close> calls: the private detection connections opened and the
  version queries issued number at most one more than the detection steps that failed, so
  at most one of each in a run where no detection step fails. A call that arrives while
  the version is unresolved and \<open>versionPromise\<close> is set has no effect of its own and
  attaches its callback to that same promise, which belongs to a detection in flight. Whenever a turn \<open>e\<close> hands a caller's
  acquisition to the pool, the version is resolved, and it is the version every later
  state of the run shows: all callers see the same version.
\<close>

theorem single_detection:
  assumes "constructor dv valid c v = Inr m0"
  shows "private_connects (snd (run m0 es)) \<le> 1 + failures es \<and>
     version_queries (snd (run m0 es)) \<le> 1 + failures es \<and>
     (getConnection_slot (fst (run m0 es)) = PrototypeMethod \<and>
      databaseVersion (fst (run m0 es)) = JNum 0 \<and>
      versionPromise (fst (run m0 es)) = Some p \<longrightarrow>
        get_connection (fst (run m0 es)) opts =
          ((fst (run m0 es))
             \<lparr>next_caller := next_caller (fst (run m0 es)) + 1,
              waiters := waiters (fst (run m0 es)) @
                [(p, next_caller (fst (run m0 es)),
                  case opts of None \<Rightarrow> empty_options | Some v \<Rightarrow> v)]\<rparr>,
           []) \<and>
        awaited (fst (run m0 es)) p) \<and>
     (list_ex is_acquire (snd (step (fst (run m0 es)) e)) \<longrightarrow>
        databaseVersion (fst (run m0 (es @ [e]))) \<noteq> JNum 0 \<and>
        databaseVersion (fst (run m0 (es @ e # es'))) = databaseVersion (fst (run m0 (es @ [e]))))"
proof -
  have inv0: "detecting_inv m0" using assms by (rule inv_constructor)
  have inv: "detecting_inv (fst (run m0 es))" using inv0 by (rule inv_run)
  have a: "private_connects (snd (run m0 es)) \<le> 1 + failures es"
    using private_connects_run [of m0 es] by simp
  have b: "version_queries (snd (run m0 es)) \<le> 1 + failures es"
    using version_queries_run [OF inv0, of es] query_budget_le [of m0] by simp
  have d: "databaseVersion (fst (run m0 (es @ [e]))) \<noteq> JNum 0 \<and>
      databaseVersion (fst (run m0 (es @ e # es'))) = databaseVersion (fst (run m0 (es @ [e])))"
    if acq: "list_ex is_acquire (snd (step (fst (run m0 es)) e))"
  proof -
    let ?m = "fst (step (fst (run m0 es)) e)"
    have r1: "fst (run m0 (es @ [e])) = ?m"
      by (simp add: fst_run_append fst_run_Cons del: run.simps(2))
    have r2: "fst (run m0 (es @ e # es')) = fst (run ?m es')"
      by (simp add: fst_run_append fst_run_Cons del: run.simps(2))
    have res: "databaseVersion ?m \<noteq> JNum 0" using inv acq by (rule acquire_when_resolved)
    have "detecting_inv ?m" using inv by (rule inv_step)
    from version_run [OF this res, of es'] res show ?thesis by (simp only: r1 r2 simp_thms)
  qed
  have w: "awaited (fst (run m0 es)) p" if "versionPromise (fst (run m0 es)) = Some p"
    using promise_inv_run [OF promise_inv_constructor [OF assms], of es] that
    by (simp add: promise_inv_def)
  show ?thesis using a b d w shared_detection by blast
qed

theorem single_detection_witness:
  "private_connects (snd (run ex_manager ex_detect_events)) \<le> 1 \<and>
   version_queries (snd (run ex_manager ex_detect_events)) \<le> 1 \<and>
   snd (get_connection (fst (run ex_manager [GetConnection None])) None) = [] \<and>
   awaited (fst (run ex_manager [GetConnection None])) 0 \<and>
   databaseVersion (fst (run ex_manager (ex_detect_events @ [DisconnectDone 0 None]))) \<noteq> JNum 0 \<and>
   databaseVersion (fst (run ex_manager
       (ex_detect_events @ DisconnectDone 0 None # [GetConnection None, RunCallbacks]))) =
     databaseVersion (fst (run ex_manager (ex_detect_events @ [DisconnectDone 0 None])))"
proof -
  note t = single_detection [OF ex_manager_constructed]
  have f: "failures ex_detect_events = 0"
    by (simp add: failures_def ex_detect_events_def)
  have acq: "list_ex is_acquire
      (snd (step (fst (run ex_manager ex_detect_events)) (DisconnectDone 0 None)))"
    unfolding ex_detect_state(2) by simp
  have sh: "getConnection_slot (fst (run ex_manager [GetConnection None])) = PrototypeMethod \<and>
      databaseVersion (fst (run ex_manager [GetConnection None])) = JNum 0 \<and>
      versionPromise (fst (run ex_manager [GetConnection None])) = Some 0"
    by (simp add: run_eval)
  have a: "private_connects (snd (run ex_manager ex_detect_events)) \<le> 1"
    and b: "version_queries (snd (run ex_manager ex_detect_events)) \<le> 1"
    using t [of ex_detect_events] f by simp_all
  have c: "snd (get_connection (fst (run ex_manager [GetConnection None])) None) = [] \<and>
      awaited (fst (run ex_manager [GetConnection None])) 0"
    using t [of "[GetConnection None]" 0 None] sh by simp
  have d: "databaseVersion (fst (run ex_manager (ex_detect_events @ [DisconnectDone 0 None]))) \<noteq> JNum 0 \<and>
      databaseVersion (fst (run ex_manager
         (ex_detect_events @ DisconnectDone 0 None # [GetConnection None, RunCallbacks]))) =
       databaseVersion (fst (run ex_manager (ex_detect_events @ [DisconnectDone 0 None])))"
    using t [of ex_detect_events _ _ "DisconnectDone 0 None" "[GetConnection None, RunCallbacks]"] acq
    by blast
  from a b c d show ?thesis by blast
qed

text \<open>
  The claim that at most one detection connection is opened and one version query issued
  for all calls made while the version is unresolved fails when a detection fails: the
  version query of the first call is rejected, the version stays unresolved, and the next
  call opens a second private connection and issues a second query.
\<close>

theorem retry_counterexample:
  "snd (run ex_manager ex_retry_events) =
     [Connect (Detection 0) (WholeConfig (config ex_manager)),
      VersionQuery 0 \<lparr>transaction_connection = ex_conn 1, logging = NoOpLogger, testLoggingFn = True\<rparr>,
      Reject 0 (Error ''query failed''),
      Connect (Detection 1) (WholeConfig (config ex_manager)),
      VersionQuery 1 \<lparr>transaction_connection = ex_conn 2, logging = NoOpLogger, testLoggingFn = True\<rparr>] \<and>
   databaseVersion (fst (run ex_manager ex_retry_events)) = JNum 0 \<and>
   private_connects (snd (run ex_manager ex_retry_events)) = 2 \<and>
   version_queries (snd (run ex_manager ex_retry_events)) = 2"
  by (simp add: private_connects_def version_queries_def ex_retry_events_def run_eval)

subsection \<open>Resetting the shared promise\<close>

lemma refuse_rejections: "concat (map (refuse err p) ws) = rejections err p ws"
  by (induction ws) (auto simp: rejections_def)

text \<open>
  C6 (as the code has it). For a manager from the constructor, after any run, and a
  detection \<open>p\<close> in flight: when its connect, its version query or its disconnect is
  rejected with \<open>err\<close>, \<open>versionPromise\<close> is \<open>null\<close> afterwards and every caller waiting
  for \<open>p\<close> is rejected with \<open>err\<close>; when its version query succeeds, \<open>versionPromise\<close>
  is \<open>null\<close> afterwards as well. After a failed connect or query the version is still
  unresolved, and the next \<open>getConnection\<close> call on a manager that is not closed starts
  a fresh detection. After a successful query, and after a failed disconnect, the version
  is resolved, and a later call opens no detection connection.
\<close>

lemma deferred_call:
  assumes "getConnection_slot m = PrototypeMethod" "databaseVersion m \<noteq> JNum 0"
  shows "get_connection m opts =
     (m\<lparr>next_caller := next_caller m + 1,
        deferred := deferred m @
          [(next_caller m, case opts of None \<Rightarrow> empty_options | Some v \<Rightarrow> v)]\<rparr>, [])"
  using assms by (simp add: get_connection_def Let_def)

theorem versionPromise_reset:
  assumes "constructor dv valid cfg v = Inr m0"
  shows
   "(detections (fst (run m0 es)) p = Some Connecting \<longrightarrow>
      versionPromise (fst (step (fst (run m0 es)) (ConnectDone p (Inl err)))) = None \<and>
      snd (step (fst (run m0 es)) (ConnectDone p (Inl err))) =
        rejections err p (waiters (fst (run m0 es))) \<and>
      (getConnection_slot (fst (run m0 es)) = PrototypeMethod \<longrightarrow>
         snd (get_connection (fst (step (fst (run m0 es)) (ConnectDone p (Inl err)))) opts) =
           [Connect (Detection (next_promise (fst (run m0 es))))
              (detection_target (config (fst (run m0 es))))])) \<and>
    (detections (fst (run m0 es)) p = Some (Querying c) \<longrightarrow>
      versionPromise (fst (step (fst (run m0 es)) (QueryDone p (Inl err)))) = None \<and>
      snd (step (fst (run m0 es)) (QueryDone p (Inl err))) =
        rejections err p (waiters (fst (run m0 es))) \<and>
      (getConnection_slot (fst (run m0 es)) = PrototypeMethod \<longrightarrow>
         snd (get_connection (fst (step (fst (run m0 es)) (QueryDone p (Inl err)))) opts) =
           [Connect (Detection (next_promise (fst (run m0 es))))
              (detection_target (config (fst (run m0 es))))]) \<and>
      versionPromise (fst (step (fst (run m0 es)) (QueryDone p (Inr ver)))) = None \<and>
      databaseVersion (fst (step (fst (run m0 es)) (QueryDone p (Inr ver)))) \<noteq> JNum 0 \<and>
      private_connects
        (snd (get_connection (fst (step (fst (run m0 es)) (QueryDone p (Inr ver)))) opts)) = 0) \<and>
    (detections (fst (run m0 es)) p = Some (Disconnecting c) \<longrightarrow>
      versionPromise (fst (step (fst (run m0 es)) (DisconnectDone p (Some err)))) = None \<and>
      snd (step (fst (run m0 es)) (DisconnectDone p (Some err))) =
        rejections err p (waiters (fst (run m0 es))) \<and>
      databaseVersion (fst (step (fst (run m0 es)) (DisconnectDone p (Some err)))) \<noteq> JNum 0 \<and>
      private_connects
        (snd (get_connection (fst (step (fst (run m0 es)) (DisconnectDone p (Some err)))) opts)) = 0)"
proof -
  let ?m = "fst (run m0 es)"
  have inv: "detecting_inv ?m" using inv_run [OF inv_constructor [OF assms]] .
  have nc: "private_connects (snd (get_connection m opts)) = 0" if "databaseVersion m \<noteq> JNum 0" for m
    using that by (simp add: get_connection_def Let_def private_connects_def split: op_splits)
  have nv: "(if valid_version ?m ver then ver else default_version ?m) \<noteq> JNum 0"
    by (rule new_version_resolved)
  have a: ?thesis if "detections ?m p = Some Connecting"
    using that invD1 [OF inv that]
    by (simp add: connect_done_def fail_def refuse_rejections get_connection_def Let_def)
  have b: ?thesis if q: "detections ?m p = Some (Querying c)" for c
  proof -
    have v: "databaseVersion (fst (step ?m (QueryDone p (Inr ver)))) \<noteq> JNum 0"
      using q nv by (simp add: query_done_def)
    have f: "versionPromise (fst (step ?m (QueryDone p (Inl err)))) = None \<and>
      snd (step ?m (QueryDone p (Inl err))) = rejections err p (waiters ?m) \<and>
      (getConnection_slot ?m = PrototypeMethod \<longrightarrow>
         snd (get_connection (fst (step ?m (QueryDone p (Inl err)))) opts) =
           [Connect (Detection (next_promise ?m)) (detection_target (config ?m))]) \<and>
      versionPromise (fst (step ?m (QueryDone p (Inr ver)))) = None"
      using q invD1 [OF inv q]
      by (simp add: query_done_def fail_def refuse_rejections get_connection_def Let_def)
    show ?thesis using q f v nc [OF v] by simp
  qed
  have d: ?thesis if q: "detections ?m p = Some (Disconnecting c)" for c
  proof -
    have v: "databaseVersion (fst (step ?m (DisconnectDone p (Some err)))) \<noteq> JNum 0"
      using q invD2 [OF inv q] by (simp add: disconnect_done_def fail_def)
    have f: "versionPromise (fst (step ?m (DisconnectDone p (Some err)))) = None \<and>
      snd (step ?m (DisconnectDone p (Some err))) = rejections err p (waiters ?m)"
      using q by (simp add: disconnect_done_def fail_def refuse_rejections)
    show ?thesis using q f v nc [OF v] by simp
  qed
  show ?thesis
  proof (cases "detections ?m p")
    case None
    then show ?thesis by simp
  next
    case (Some ph)
    then show ?thesis using a b d by (cases ph) auto
  qed
qed

theorem versionPromise_reset_witness:
  "versionPromise ex_waiting = Some 0 \<and>
   versionPromise (fst (step ex_waiting (ConnectDone 0 (Inl (Error ''refused''))))) = None \<and>
   snd (step ex_waiting (ConnectDone 0 (Inl (Error ''refused'')))) =
     [Reject 0 (Error ''refused''), Reject 1 (Error ''refused'')] \<and>
   snd (get_connection (fst (step ex_waiting (ConnectDone 0 (Inl (Error ''refused''))))) None) =
     [Connect (Detection 1) (WholeConfig (config ex_manager))]"
proof -
  have d: "detections ex_waiting 0 = Some Connecting"
    and v: "versionPromise ex_waiting = Some 0"
    and w: "waiters ex_waiting = [(0, 0, empty_options), (0, 1, empty_options)]"
    and z: "getConnection_slot ex_waiting = PrototypeMethod"
    and n: "next_promise ex_waiting = 1" and cf: "config ex_waiting = config ex_manager"
    and r: "replication (config ex_manager) = None"
    by (simp_all add: ex_waiting_def run_eval)
  from versionPromise_reset [OF ex_manager_constructed,
      of "[GetConnection None, GetConnection None]" 0 "Error ''refused''" None]
    d z
  have "versionPromise (fst (step ex_waiting (ConnectDone 0 (Inl (Error ''refused''))))) = None"
    and "snd (step ex_waiting (ConnectDone 0 (Inl (Error ''refused'')))) =
       rejections (Error ''refused'') 0 (waiters ex_waiting)"
    and "snd (get_connection (fst (step ex_waiting (ConnectDone 0 (Inl (Error ''refused''))))) None) =
       [Connect (Detection (next_promise ex_waiting)) (detection_target (config ex_waiting))]"
    unfolding ex_waiting_def by blast+
  then show ?thesis
    using v by (simp add: w n cf r rejections_def detection_target_def)
qed

text \<open>
  The claim that after either outcome a later call can start a fresh detection fails for
  the successful outcome: the version is recorded, and the next call, finding it
  resolved, has no effect but its callback on the resolved promise.
\<close>

theorem success_counterexample:
  "databaseVersion (fst (run ex_manager ex_success_events)) = JStr ''5.7.20'' \<and>
   versionPromise (fst (run ex_manager ex_success_events)) = None \<and>
   getConnection_slot (fst (run ex_manager ex_success_events)) = PrototypeMethod \<and>
   snd (get_connection (fst (run ex_manager ex_success_events)) None) = [] \<and>
   versionPromise (fst (get_connection (fst (run ex_manager ex_success_events)) None)) = None"
  by (simp add: ex_success_events_def run_eval)

subsection \<open>The steps of a detection\<close>



end
